theory Spec2Isabelle
  imports Main "HOL-Library.Sublist" "HOL-Library.Multiset" "HOL-Library.AList"
begin

section \<open>Python values used by \<open>model_download.py\<close>\<close>

text \<open>
  Exceptions are values. \<open>ValueError_status n\<close> is the
  \<open>ValueError(f"Download failed with status code: {n}")\<close> of the two GET strategies,
  \<open>ValueError_no_zip\<close> the \<open>ValueError("No zip file found in Huggingface URL")\<close>.
  \<open>LibraryError m\<close> stands for any exception raised inside a third-party call
  (\<open>requests\<close>, \<open>gdown\<close>, \<open>zipfile\<close>, \<open>bs4\<close>), \<open>m\<close> being its message.
\<close>

datatype exn =
    ValueError_status int
  | ValueError_no_zip
  | ValueError_empty_separator
  | IndexError
  | FileNotFoundError
  | NotADirectoryError
  | IsADirectoryError
  | DirectoryNotEmpty
  | InvalidArgument
  | FileExistsError
  | ValueError_null_byte
  | shutil_Error
  | LibraryError string

subsection \<open>Strings\<close>

text \<open>\<open>sub in s\<close>: \<open>sub\<close> occurs in \<open>s\<close> as a contiguous substring.\<close>

definition str_in :: "string \<Rightarrow> string \<Rightarrow> bool" where
  "str_in sub s = sublist sub s"

text \<open>
  The left-to-right search every \<open>str\<close> method below starts with: the text before the
  first occurrence of \<open>sep\<close> and the text after it, or \<open>None\<close> when there is none.
\<close>

fun str_partition :: "string \<Rightarrow> string \<Rightarrow> (string \<times> string) option" where
  "str_partition sep [] = (if sep = [] then Some ([], []) else None)"
| "str_partition sep (c # cs) =
     (if prefix sep (c # cs) then Some ([], drop (length sep) (c # cs))
      else (case str_partition sep cs of
              None \<Rightarrow> None
            | Some (b, a) \<Rightarrow> Some (c # b, a)))"

text \<open>\<open>s.split(sep)\<close> for a nonempty separator: the pieces between the occurrences,
  found left to right without overlap.\<close>

function split_parts :: "string \<Rightarrow> string \<Rightarrow> string list" where
  "split_parts sep s =
     (if sep = [] then [s]
      else (case str_partition sep s of
              None \<Rightarrow> [s]
            | Some (b, a) \<Rightarrow> b # split_parts sep a))"
  by pat_completeness auto
termination
proof (relation "measure (\<lambda>(sep, s). length s)")
  show "wf (measure (\<lambda>(sep, s). length s))" by simp
next
  fix sep s :: string and x2 b a
  assume sep: "sep \<noteq> []" and part: "str_partition sep s = Some x2" "(b, a) = x2"
  have shorter: "str_partition sep t = Some (b', a') \<Longrightarrow> length a' < length t"
    for t b' a'
  proof (induction t arbitrary: b')
    case Nil
    with sep show ?case by simp
  next
    case (Cons c cs)
    show ?case
    proof (cases "prefix sep (c # cs)")
      case True
      with Cons.prems have "a' = drop (length sep) (c # cs)" by simp
      with sep show ?thesis by (cases sep) simp_all
    next
      case False
      with Cons.prems obtain b'' where "str_partition sep cs = Some (b'', a')"
        by (auto split: option.splits)
      with Cons.IH have "length a' < length cs" by simp
      then show ?thesis by simp
    qed
  qed
  from part have "str_partition sep s = Some (b, a)" by simp
  then have "length a < length s" by (rule shorter)
  then show "((sep, a), (sep, s)) \<in> measure (\<lambda>(sep, s). length s)" by simp
qed

declare split_parts.simps [simp del]

text \<open>\<open>s.split(sep)\<close>; Python raises \<open>ValueError\<close> on an empty separator.\<close>

definition str_split :: "string \<Rightarrow> string \<Rightarrow> exn + string list" where
  "str_split s sep =
     (if sep = [] then Inl ValueError_empty_separator else Inr (split_parts sep s))"

text \<open>\<open>xs[i]\<close> for \<open>i \<ge> 0\<close>; out of range raises \<open>IndexError\<close>.\<close>

definition index :: "'a list \<Rightarrow> nat \<Rightarrow> exn + 'a" where
  "index xs i = (if i < length xs then Inr (xs ! i) else Inl IndexError)"

text \<open>Sequencing of two steps either of which may raise.\<close>

definition and_then :: "exn + 'a \<Rightarrow> ('a \<Rightarrow> exn + 'b) \<Rightarrow> exn + 'b" where
  "and_then r f = (case r of Inl e \<Rightarrow> Inl e | Inr x \<Rightarrow> f x)"

section \<open>\<open>extract_google_drive_id\<close>\<close>

definition extract_google_drive_id :: "string \<Rightarrow> exn + string option" where
  "extract_google_drive_id url =
     (if str_in ''file/d/'' url then
        and_then (str_split url ''file/d/'') (\<lambda>parts.
        and_then (index parts 1) (\<lambda>tail.
        and_then (str_split tail ''/'') (\<lambda>pieces.
        and_then (index pieces 0) (\<lambda>ident. Inr (Some ident)))))
      else if str_in ''id='' url then
        and_then (str_split url ''id='') (\<lambda>parts.
        and_then (index parts 1) (\<lambda>tail.
        and_then (str_split tail ''&'') (\<lambda>pieces.
        and_then (index pieces 0) (\<lambda>ident. Inr (Some ident)))))
      else Inr None)"

text \<open>\<open>s.replace(old, new)\<close>: every occurrence of \<open>old\<close>, found left to right without
  overlap, becomes \<open>new\<close>; an empty \<open>old\<close> matches before every character and at the end.\<close>

function replace_parts :: "string \<Rightarrow> string \<Rightarrow> string \<Rightarrow> string" where
  "replace_parts old new s =
     (if old = [] then s
      else (case str_partition old s of
              None \<Rightarrow> s
            | Some (b, a) \<Rightarrow> b @ new @ replace_parts old new a))"
  by pat_completeness auto
termination
proof (relation "measure (\<lambda>(old, new, s). length s)")
  show "wf (measure (\<lambda>(old, new, s). length s))" by simp
next
  fix old new s :: string and x2 b a
  assume old: "old \<noteq> []" and part: "str_partition old s = Some x2" "(b, a) = x2"
  have shorter: "str_partition old t = Some (b', a') \<Longrightarrow> length a' < length t"
    for t b' a'
  proof (induction t arbitrary: b')
    case Nil
    with old show ?case by simp
  next
    case (Cons c cs)
    show ?case
    proof (cases "prefix old (c # cs)")
      case True
      with Cons.prems have "a' = drop (length old) (c # cs)" by simp
      with old show ?thesis by (cases old) simp_all
    next
      case False
      with Cons.prems obtain b'' where "str_partition old cs = Some (b'', a')"
        by (auto split: option.splits)
      with Cons.IH have "length a' < length cs" by simp
      then show ?thesis by simp
    qed
  qed
  from part have "str_partition old s = Some (b, a)" by simp
  then have "length a < length s" by (rule shorter)
  then show "((old, new, a), (old, new, s)) \<in> measure (\<lambda>(old, new, s). length s)" by simp
qed

declare replace_parts.simps [simp del]

definition str_replace :: "string \<Rightarrow> string \<Rightarrow> string \<Rightarrow> string" where
  "str_replace s old new =
     (if old = [] then new @ concat (map (\<lambda>c. c # new) s) else replace_parts old new s)"

text \<open>\<open>s.endswith(sfx)\<close>.\<close>

definition str_endswith :: "string \<Rightarrow> string \<Rightarrow> bool" where
  "str_endswith s sfx = suffix sfx s"

text \<open>\<open>os.path.join(a, b)\<close> of \<open>posixpath\<close>, on the path strings themselves.\<close>

definition os_path_join :: "string \<Rightarrow> string \<Rightarrow> string" where
  "os_path_join a b =
     (if prefix ''/'' b then b
      else if a = [] \<or> suffix ''/'' a then a @ b
      else a @ ''/'' @ b)"

section \<open>The file system\<close>

text \<open>
  A file-system object is a regular file with its content or a directory with its
  entries; \<open>zipfile\<close> and this module create no links. A \<open>tree\<close> is what one path
  names (\<open>None\<close>: nothing exists there), and a \<open>path\<close> lists the names leading from that
  place to an object below it, so that \<open>os.path.join(p, name)\<close> is \<open>p @ [name]\<close> for a
  \<open>name\<close> without separator. Each function of the module is modelled on the tree at the
  directory it is given: what it does to paths inside that directory depends on nothing
  outside and changes nothing outside. Permissions, quotas and name-length limits are
  not modelled.

  \<open>os.listdir\<close> returns the names in arbitrary order: the order is the parameter
  \<open>order\<close>, any function that permutes its argument (\<open>is_listing\<close>).
\<close>

datatype node = File string | Dir "(string \<times> node) list"

type_synonym tree = "node option"
type_synonym path = "string list"
type_synonym listing = "string list \<Rightarrow> string list"

definition is_listing :: "listing \<Rightarrow> bool" where
  "is_listing order = (\<forall>names. mset (order names) = mset names)"

fun lookup :: "tree \<Rightarrow> path \<Rightarrow> tree" where
  "lookup t [] = t"
| "lookup t (c # cs) =
     (case t of Some (Dir es) \<Rightarrow> lookup (map_of es c) cs | _ \<Rightarrow> None)"

definition set_entry :: "string \<Rightarrow> tree \<Rightarrow> (string \<times> node) list \<Rightarrow> (string \<times> node) list" where
  "set_entry c v es = (case v of None \<Rightarrow> AList.delete c es | Some n \<Rightarrow> AList.update c n es)"

text \<open>\<open>put p v t\<close>: the object at \<open>p\<close> becomes \<open>v\<close> (\<open>None\<close> removes it); the directory
  that holds it must exist.\<close>

fun put :: "path \<Rightarrow> tree \<Rightarrow> tree \<Rightarrow> tree" where
  "put [] v t = v"
| "put (c # cs) v t =
     (case t of
        Some (Dir es) \<Rightarrow> Some (Dir (set_entry c (put cs v (map_of es c)) es))
      | _ \<Rightarrow> t)"

definition os_path_exists :: "tree \<Rightarrow> path \<Rightarrow> bool" where
  "os_path_exists t p = (lookup t p \<noteq> None)"

definition os_path_isdir :: "tree \<Rightarrow> path \<Rightarrow> bool" where
  "os_path_isdir t p = (case lookup t p of Some (Dir _) \<Rightarrow> True | _ \<Rightarrow> False)"

definition os_path_isfile :: "tree \<Rightarrow> path \<Rightarrow> bool" where
  "os_path_isfile t p = (case lookup t p of Some (File _) \<Rightarrow> True | _ \<Rightarrow> False)"

definition os_listdir :: "listing \<Rightarrow> tree \<Rightarrow> path \<Rightarrow> exn + string list" where
  "os_listdir order t p =
     (case lookup t p of
        None \<Rightarrow> Inl FileNotFoundError
      | Some (File _) \<Rightarrow> Inl NotADirectoryError
      | Some (Dir es) \<Rightarrow> Inr (order (map fst es)))"

definition shutil_rmtree :: "path \<Rightarrow> tree \<Rightarrow> (exn + unit) \<times> tree" where
  "shutil_rmtree p t =
     (case lookup t p of
        None \<Rightarrow> (Inl FileNotFoundError, t)
      | Some (File _) \<Rightarrow> (Inl NotADirectoryError, t)
      | Some (Dir _) \<Rightarrow> (Inr (), put p None t))"

definition os_rmdir :: "path \<Rightarrow> tree \<Rightarrow> (exn + unit) \<times> tree" where
  "os_rmdir p t =
     (case lookup t p of
        None \<Rightarrow> (Inl FileNotFoundError, t)
      | Some (File _) \<Rightarrow> (Inl NotADirectoryError, t)
      | Some (Dir es) \<Rightarrow> if es = [] then (Inr (), put p None t) else (Inl DirectoryNotEmpty, t))"

definition os_remove :: "path \<Rightarrow> tree \<Rightarrow> (exn + unit) \<times> tree" where
  "os_remove p t =
     (case lookup t p of
        None \<Rightarrow> (Inl FileNotFoundError, t)
      | Some (Dir _) \<Rightarrow> (Inl IsADirectoryError, t)
      | Some (File _) \<Rightarrow> (Inr (), put p None t))"

text \<open>\<open>os.rename(src, dst)\<close> with the POSIX rules: a file replaces a file, a directory
  replaces an empty directory, nothing moves into itself.\<close>

definition os_rename :: "path \<Rightarrow> path \<Rightarrow> tree \<Rightarrow> (exn + unit) \<times> tree" where
  "os_rename src dst t =
     (case lookup t src of
        None \<Rightarrow> (Inl FileNotFoundError, t)
      | Some s \<Rightarrow>
          if src = dst then (Inr (), t)
          else if src = [] \<or> dst = [] then (Inl InvalidArgument, t)
          else (case lookup t (butlast dst) of
                  None \<Rightarrow> (Inl FileNotFoundError, t)
                | Some (File _) \<Rightarrow> (Inl NotADirectoryError, t)
                | Some (Dir _) \<Rightarrow>
                    if prefix src dst then (Inl InvalidArgument, t)
                    else (case (s, lookup t dst) of
                            (_, None) \<Rightarrow> (Inr (), put dst (Some s) (put src None t))
                          | (File _, Some (File _)) \<Rightarrow>
                              (Inr (), put dst (Some s) (put src None t))
                          | (File _, Some (Dir _)) \<Rightarrow> (Inl IsADirectoryError, t)
                          | (Dir _, Some (File _)) \<Rightarrow> (Inl NotADirectoryError, t)
                          | (Dir _, Some (Dir es)) \<Rightarrow>
                              if es = [] then (Inr (), put dst (Some s) (put src None t))
                              else (Inl DirectoryNotEmpty, t))))"

text \<open>
  \<open>shutil.move(src, dst)\<close>: into \<open>dst\<close> when \<open>dst\<close> is a directory (\<open>shutil.Error\<close> when
  the name is taken there), else \<open>os.rename\<close>. When \<open>os.rename\<close> fails, \<open>shutil\<close> copies
  instead, which fails in turn: a directory cannot be moved into itself
  (\<open>shutil.Error\<close>) or onto something that exists (\<open>FileExistsError\<close> of
  \<open>copytree\<close>). Only a directory moved below a missing directory would be copied with
  the parents created; the model raises there.
\<close>

definition move_to :: "path \<Rightarrow> path \<Rightarrow> tree \<Rightarrow> (exn + unit) \<times> tree" where
  "move_to src real_dst t =
     (case os_rename src real_dst t of
        (Inr u, t') \<Rightarrow> (Inr u, t')
      | (Inl e, _) \<Rightarrow>
          if os_path_isdir t src \<and> prefix src real_dst then (Inl shutil_Error, t)
          else if os_path_isdir t src \<and> os_path_exists t real_dst then
            (Inl FileExistsError, t)
          else (Inl e, t))"

definition shutil_move :: "path \<Rightarrow> path \<Rightarrow> tree \<Rightarrow> (exn + unit) \<times> tree" where
  "shutil_move src dst t =
     (if os_path_isdir t dst then
        (if src = dst then os_rename src dst t
         else (case rev src of
                 [] \<Rightarrow> (Inl InvalidArgument, t)
               | base # _ \<Rightarrow>
                   let real_dst = dst @ [base] in
                   if os_path_exists t real_dst then (Inl shutil_Error, t)
                   else move_to src real_dst t))
      else move_to src dst t)"

text \<open>A \<open>for\<close> loop whose body may raise: the exception ends the loop and keeps what
  the earlier rounds did.\<close>

fun for_each :: "'a list \<Rightarrow> ('a \<Rightarrow> 's \<Rightarrow> (exn + unit) \<times> 's) \<Rightarrow> 's \<Rightarrow> (exn + unit) \<times> 's" where
  "for_each [] body s = (Inr (), s)"
| "for_each (x # xs) body s =
     (case body x s of
        (Inl e, s') \<Rightarrow> (Inl e, s')
      | (Inr _, s') \<Rightarrow> for_each xs body s')"

text \<open>One statement after another: the second runs only when the first returned.\<close>

definition next_do ::
  "(exn + 'a) \<times> 's \<Rightarrow> ('a \<Rightarrow> 's \<Rightarrow> (exn + 'b) \<times> 's) \<Rightarrow> (exn + 'b) \<times> 's" where
  "next_do r f = (case r of (Inl e, s) \<Rightarrow> (Inl e, s) | (Inr x, s) \<Rightarrow> f x s)"

datatype log_record =
    ERROR string
  | ERROR_exn string exn
  | INFO string

section \<open>\<open>search_pth_index\<close>\<close>

text \<open>\<open>t\<close> is the tree at \<open>folder\<close>; the two lists hold path strings. Each of the
  two comprehensions lists the directory; with one listing order for both, the model
  lists it once.\<close>

definition search_pth_index ::
  "listing \<Rightarrow> string \<Rightarrow> tree \<Rightarrow> log_record list
     \<Rightarrow> (exn + string list \<times> string list) \<times> log_record list" where
  "search_pth_index order folder t lg =
     (if \<not> os_path_exists t [] then
        (Inr ([], []), lg @ [ERROR (''Folder not found: '' @ folder)])
      else
        (case os_listdir order t [] of
           Inl e \<Rightarrow> (Inl e, lg)
         | Inr names \<Rightarrow>
             let pth_paths =
                   map (os_path_join folder)
                     (filter (\<lambda>file. os_path_isfile t [file] \<and> str_endswith file ''.pth'') names);
                 index_paths =
                   map (os_path_join folder)
                     (filter (\<lambda>file. os_path_isfile t [file] \<and> str_endswith file ''.index'') names)
             in (Inr (pth_paths, index_paths), lg)))"

text \<open>The paths of the top-level regular files of a directory whose names end in
  \<open>ext\<close>, as a set.\<close>

definition top_level_files :: "string \<Rightarrow> (string \<times> node) list \<Rightarrow> string \<Rightarrow> string set" where
  "top_level_files folder es ext =
     {os_path_join folder file | file.
        str_endswith file ext \<and> (\<exists>c. map_of es file = Some (File c))}"

section \<open>\<open>clean_extracted_files\<close>\<close>

text \<open>\<open>t\<close> is the tree at \<open>extract_folder_path\<close>. The function has three parts, one
  definition each: the metadata folder, the single subfolder, the two renames.\<close>

definition remove_macosx :: "tree \<Rightarrow> (exn + unit) \<times> tree" where
  "remove_macosx t =
     (let macosx_path = [''__MACOSX''] in
      if os_path_exists t macosx_path then shutil_rmtree macosx_path t else (Inr (), t))"

definition hoist_single_subfolder :: "listing \<Rightarrow> tree \<Rightarrow> (exn + unit) \<times> tree" where
  "hoist_single_subfolder order t =
     (case os_listdir order t [] of
        Inl e \<Rightarrow> (Inl e, t)
      | Inr names \<Rightarrow>
          let subfolders = filter (\<lambda>f. os_path_isdir t [f]) names in
          if length subfolders = 1 then
            let subfolder_path = [subfolders ! 0] in
            (case os_listdir order t subfolder_path of
               Inl e \<Rightarrow> (Inl e, t)
             | Inr items \<Rightarrow>
                 next_do
                   (for_each items
                      (\<lambda>item. shutil_move (subfolder_path @ [item]) [item]) t)
                   (\<lambda>_. os_rmdir subfolder_path))
          else (Inr (), t))"

definition rename_item :: "string \<Rightarrow> string \<Rightarrow> tree \<Rightarrow> (exn + unit) \<times> tree" where
  "rename_item model_name item t =
     (let source_path = [item] in
      case (if str_in ''.pth'' item then Some (model_name @ ''.pth'')
            else if str_in ''.index'' item then Some (model_name @ ''.index'')
            else None) of
        None \<Rightarrow> (Inr (), t)
      | Some new_file_name \<Rightarrow>
          let destination_path = [new_file_name] in
          if \<not> os_path_exists t destination_path then
            os_rename source_path destination_path t
          else (Inr (), t))"

definition rename_artifacts :: "listing \<Rightarrow> string \<Rightarrow> tree \<Rightarrow> (exn + unit) \<times> tree" where
  "rename_artifacts order model_name t =
     (case os_listdir order t [] of
        Inl e \<Rightarrow> (Inl e, t)
      | Inr names \<Rightarrow> for_each names (rename_item model_name) t)"

definition clean_extracted_files :: "listing \<Rightarrow> tree \<Rightarrow> string \<Rightarrow> (exn + unit) \<times> tree" where
  "clean_extracted_files order t model_name =
     next_do (remove_macosx t) (\<lambda>_. \<lambda>t1.
     next_do (hoist_single_subfolder order t1) (\<lambda>_. \<lambda>t2.
     rename_artifacts order model_name t2))"

text \<open>The names of the subdirectories of a directory, in stored order.\<close>

definition subfolders_of :: "(string \<times> node) list \<Rightarrow> string list" where
  "subfolders_of d = filter (\<lambda>f. os_path_isdir (Some (Dir d)) [f]) (map fst d)"



section \<open>The world around the module\<close>

text \<open>
  What the module reads and changes: the files below \<open>logs_path\<close> (the staging
  directory \<open>zips_path\<close> is its entry \<open>zips\<close>), the records handed to \<open>logging\<close>, the
  URLs requested, and the working directory. What it only calls is a parameter, gathered
  in \<open>env\<close>: the listing order of \<open>os.listdir\<close>, the two path strings, the HTTP server
  behind \<open>requests.get\<close>, \<open>gdown.download\<close>, the decoding of percent escapes by
  \<open>urllib.parse.unquote\<close>, \<open>int\<close> on a header value, the \<open>href\<close>s \<open>BeautifulSoup\<close> finds in a
  page, \<open>ZipFile(...).extractall\<close>, \<open>format_title\<close> of \<open>bfrvc.units.utils\<close>, and which
  directories exist outside \<open>logs_path\<close>. A theorem that holds for every \<open>env\<close> holds
  whatever these do.
\<close>

record response =
  status_code :: int
  header_content_disposition :: "string option"
  header_content_length :: "string option"
  chunks :: "string list"
  stream_error :: "exn option"

record env =
  listdir_order :: listing
  zips_path :: string
  logs_path :: string
  http_get :: "string \<Rightarrow> exn + response"
  gdown_download :: "string \<Rightarrow> tree \<Rightarrow> (exn + unit) \<times> tree"
  unquote_escapes :: "string \<Rightarrow> string"
  int_of_str :: "string \<Rightarrow> exn + int"
  find_all_a_href :: "string \<Rightarrow> string list"
  zip_extractall :: "path \<Rightarrow> path \<Rightarrow> tree \<Rightarrow> (exn + unit) \<times> tree"
  format_title :: "string \<Rightarrow> string"
  dir_elsewhere :: "string \<Rightarrow> bool"

record world =
  files :: tree
  logged :: "log_record list"
  requested :: "string list"
  cwd :: string

definition on_files :: "(tree \<Rightarrow> (exn + 'a) \<times> tree) \<Rightarrow> world \<Rightarrow> (exn + 'a) \<times> world" where
  "on_files f w = (case f (files w) of (r, t) \<Rightarrow> (r, w\<lparr>files := t\<rparr>))"

definition logging :: "log_record \<Rightarrow> world \<Rightarrow> world" where
  "logging record w = w\<lparr>logged := logged w @ [record]\<rparr>"

text \<open>\<open>try: body except Exception as error: handler(error)\<close> and
  \<open>try: body finally: final\<close>. An exception of \<open>final\<close> replaces whatever \<open>body\<close> left.\<close>

definition try_except ::
  "('s \<Rightarrow> (exn + 'a) \<times> 's) \<Rightarrow> (exn \<Rightarrow> 's \<Rightarrow> (exn + 'a) \<times> 's) \<Rightarrow> 's \<Rightarrow> (exn + 'a) \<times> 's" where
  "try_except body handler s =
     (case body s of (Inl error, s') \<Rightarrow> handler error s' | (Inr x, s') \<Rightarrow> (Inr x, s'))"

definition try_finally ::
  "('s \<Rightarrow> (exn + 'a) \<times> 's) \<Rightarrow> ('s \<Rightarrow> (exn + unit) \<times> 's) \<Rightarrow> 's \<Rightarrow> (exn + 'a) \<times> 's" where
  "try_finally body final s =
     (case body s of
        (r, s') \<Rightarrow> (case final s' of (Inl e, s'') \<Rightarrow> (Inl e, s'') | (Inr _, s'') \<Rightarrow> (r, s'')))"

text \<open>\<open>os.getcwd()\<close> and \<open>os.chdir(p)\<close>: a directory is the staging directory or one
  outside \<open>logs_path\<close>.\<close>

definition dir_exists :: "env \<Rightarrow> world \<Rightarrow> string \<Rightarrow> exn option" where
  "dir_exists env w p =
     (if p = zips_path env then
        (case lookup (files w) [''zips''] of
           None \<Rightarrow> Some FileNotFoundError
         | Some (File _) \<Rightarrow> Some NotADirectoryError
         | Some (Dir _) \<Rightarrow> None)
      else if dir_elsewhere env p then None else Some FileNotFoundError)"

definition os_getcwd :: "env \<Rightarrow> world \<Rightarrow> exn + string" where
  "os_getcwd env w =
     (case dir_exists env w (cwd w) of Some _ \<Rightarrow> Inl FileNotFoundError | None \<Rightarrow> Inr (cwd w))"

definition os_chdir :: "env \<Rightarrow> string \<Rightarrow> world \<Rightarrow> (exn + unit) \<times> world" where
  "os_chdir env p w =
     (case dir_exists env w p of Some e \<Rightarrow> (Inl e, w) | None \<Rightarrow> (Inr (), w\<lparr>cwd := p\<rparr>))"

text \<open>\<open>requests.get(url, stream=True)\<close>: the request is recorded, the server answers or
  the call raises. Without \<open>stream=True\<close> the body is read at once, and a broken stream
  raises there.\<close>

definition requests_get_stream :: "env \<Rightarrow> string \<Rightarrow> world \<Rightarrow> (exn + response) \<times> world" where
  "requests_get_stream env url w = (http_get env url, w\<lparr>requested := requested w @ [url]\<rparr>)"

definition requests_get :: "env \<Rightarrow> string \<Rightarrow> world \<Rightarrow> (exn + response) \<times> world" where
  "requests_get env url w =
     (case requests_get_stream env url w of
        (Inl e, w') \<Rightarrow> (Inl e, w')
      | (Inr response, w') \<Rightarrow>
          (case stream_error response of Some e \<Rightarrow> (Inl e, w') | None \<Rightarrow> (Inr response, w')))"

text \<open>\<open>open(path, "wb")\<close> creates or empties a regular file; \<open>file.write(data)\<close>
  appends to it.\<close>

definition open_wb :: "path \<Rightarrow> tree \<Rightarrow> (exn + unit) \<times> tree" where
  "open_wb p t =
     (case rev p of
        [] \<Rightarrow> (Inl IsADirectoryError, t)
      | name # _ \<Rightarrow>
          if CHR 0x00 \<in> set name then (Inl ValueError_null_byte, t)
          else (case lookup t (butlast p) of
                  None \<Rightarrow> (Inl FileNotFoundError, t)
                | Some (File _) \<Rightarrow> (Inl NotADirectoryError, t)
                | Some (Dir _) \<Rightarrow>
                    if name \<in> {[], ''.'', ''..''} then (Inl IsADirectoryError, t)
                    else (case lookup t p of
                            Some (Dir _) \<Rightarrow> (Inl IsADirectoryError, t)
                          | _ \<Rightarrow> (Inr (), put p (Some (File [])) t))))"

definition file_write :: "path \<Rightarrow> string \<Rightarrow> tree \<Rightarrow> tree" where
  "file_write p data t =
     (case lookup t p of Some (File c) \<Rightarrow> put p (Some (File (c @ data))) t | _ \<Rightarrow> t)"

section \<open>\<open>save_response_content\<close>\<close>

text \<open>\<open>unquote(s)\<close> returns \<open>s\<close> itself when it holds no \<open>%\<close>.\<close>

definition unquote :: "env \<Rightarrow> string \<Rightarrow> string" where
  "unquote env s = (if CHR ''%'' \<notin> set s then s else unquote_escapes env s)"

text \<open>\<open>re.search(r'filename="([^"]+)"', s)\<close>, group 1: at the leftmost place where
  \<open>filename="\<close> is followed by at least one character other than a quote and then a
  quote, the characters between the quotes.\<close>

definition filename_here :: "string \<Rightarrow> string option" where
  "filename_here s =
     (if prefix ''filename=\"'' s then
        (let after = drop 10 s;
             name = takeWhile (\<lambda>c. c \<noteq> CHR ''\"'') after
         in if name \<noteq> [] \<and> dropWhile (\<lambda>c. c \<noteq> CHR ''\"'') after \<noteq> [] then Some name else None)
      else None)"

fun re_search_filename :: "string \<Rightarrow> string option" where
  "re_search_filename [] = None"
| "re_search_filename (c # cs) =
     (case filename_here (c # cs) of
        Some name \<Rightarrow> Some name
      | None \<Rightarrow> re_search_filename cs)"

text \<open>\<open>os.path.sep\<close> of a POSIX system.\<close>

definition os_path_sep :: string where
  "os_path_sep = ''/''"

text \<open>The values the function binds to \<open>content_disposition\<close> and \<open>file_name\<close>.\<close>

definition content_disposition_of :: "env \<Rightarrow> response \<Rightarrow> string" where
  "content_disposition_of env response =
     unquote env (case header_content_disposition response of None \<Rightarrow> [] | Some h \<Rightarrow> h)"

definition file_name_of :: "env \<Rightarrow> response \<Rightarrow> string" where
  "file_name_of env response =
     (let content_disposition = content_disposition_of env response
      in case (if content_disposition \<noteq> [] then re_search_filename content_disposition
               else None) of
           Some name \<Rightarrow> str_replace name os_path_sep ''_''
         | None \<Rightarrow> ''downloaded_file'')"


definition save_response_content :: "env \<Rightarrow> response \<Rightarrow> world \<Rightarrow> (exn + unit) \<times> world" where
  "save_response_content env response w =
     (let file_name = file_name_of env response in
      case (case header_content_length response of
              None \<Rightarrow> Inr 0
            | Some h \<Rightarrow> int_of_str env h) of
        Inl e \<Rightarrow> (Inl e, w)
      | Inr total_size \<Rightarrow>
          next_do (on_files (open_wb [''zips'', file_name]) w) (\<lambda>_ w1.
            let w2 = w1\<lparr>files := foldl (\<lambda>t data. file_write [''zips'', file_name] data t)
                                     (files w1) (chunks response)\<rparr>
            in case stream_error response of
                 Some e \<Rightarrow> (Inl e, w2)
               | None \<Rightarrow> (Inr (), w2)))"

section \<open>The download strategies\<close>

definition download_file :: "env \<Rightarrow> string \<Rightarrow> world \<Rightarrow> (exn + unit) \<times> world" where
  "download_file env url w =
     next_do (requests_get_stream env url w) (\<lambda>response w'.
       if status_code response = 200 then save_response_content env response w'
       else (Inl (ValueError_status (status_code response)), w'))"

definition download_blob_or_resolve :: "env \<Rightarrow> string \<Rightarrow> world \<Rightarrow> (exn + unit) \<times> world" where
  "download_blob_or_resolve env url w =
     (let url = (if str_in ''/blob/'' url then str_replace url ''/blob/'' ''/resolve/'' else url) in
      next_do (requests_get_stream env url w) (\<lambda>response w'.
        if status_code response = 200 then save_response_content env response w'
        else (Inl (ValueError_status (status_code response)), w')))"

definition download_from_huggingface :: "env \<Rightarrow> string \<Rightarrow> world \<Rightarrow> (exn + unit) \<times> world" where
  "download_from_huggingface env url w =
     next_do (requests_get env url w) (\<lambda>response w'.
       let soup = find_all_a_href env (concat (chunks response));
           temp_url = find (\<lambda>href. str_endswith href ''.zip'') soup
       in case temp_url of
            Some (c # cs) \<Rightarrow>
              let url = str_replace (c # cs) ''blob'' ''resolve'';
                  url = (if \<not> str_in ''huggingface.co'' url then ''https://huggingface.co'' @ url
                         else url)
              in download_file env url w'
          | _ \<Rightarrow> (Inl ValueError_no_zip, w'))"

text \<open>\<open>os.path.splitext\<close> of \<open>posixpath\<close>: the extension starts at the last dot of the
  last component, unless only dots come before it there.\<close>

definition os_path_splitext :: "string \<Rightarrow> string \<times> string" where
  "os_path_splitext p =
     (let base = rev (takeWhile (\<lambda>c. c \<noteq> CHR ''/'') (rev p));
          head = rev (dropWhile (\<lambda>c. c \<noteq> CHR ''/'') (rev p))
      in if CHR ''.'' \<in> set base then
           (let ext = CHR ''.'' # rev (takeWhile (\<lambda>c. c \<noteq> CHR ''.'') (rev base));
                stem = rev (tl (dropWhile (\<lambda>c. c \<noteq> CHR ''.'') (rev base)))
            in if \<exists>c \<in> set stem. c \<noteq> CHR ''.'' then (head @ stem, ext) else (p, []))
         else (p, []))"

text \<open>\<open>os.walk(top)\<close>, top down: each directory with the names of its entries that are
  not directories. It skips what it cannot list.\<close>

function os_walk :: "listing \<Rightarrow> path \<Rightarrow> node \<Rightarrow> (path \<times> string list) list" where
  "os_walk order p (File c) = []"
| "os_walk order p (Dir es) =
     (let names = order (map fst es);
          is_dir = (\<lambda>k. case map_of es k of Some (Dir _) \<Rightarrow> True | _ \<Rightarrow> False)
      in (p, filter (\<lambda>k. \<not> is_dir k) names)
         # concat (map (\<lambda>k. case map_of es k of
                               Some n \<Rightarrow> os_walk order (p @ [k]) n
                             | None \<Rightarrow> [])
                    (filter is_dir names)))"
  by pat_completeness auto
termination
proof (relation "measure (\<lambda>(order, p, n). size n)")
  show "wf (measure (\<lambda>(order, p, n). size n))" by simp
next
  fix order :: listing and p :: path and es :: "(string \<times> node) list"
    and names is_dir k n
  assume "map_of es k = Some n"
  then have "(k, n) \<in> set es" by (rule map_of_SomeD)
  then have "size n < size (Dir es)"
    by (induction es) auto
  then show "((order, p @ [k], n), (order, p, Dir es)) \<in> measure (\<lambda>(order, p, n). size n)"
    by simp
qed

definition rename_downloaded_file :: "path \<Rightarrow> string \<Rightarrow> tree \<Rightarrow> (exn + unit) \<times> tree" where
  "rename_downloaded_file current_path file t =
     (case os_path_splitext file of
        (file_name, extension) \<Rightarrow>
          let real_path = current_path @ [file];
              new_path = current_path @ [str_replace file_name os_path_sep ''_'' @ extension]
          in if real_path \<noteq> new_path then os_rename real_path new_path t else (Inr (), t))"

definition rename_downloaded_files :: "env \<Rightarrow> tree \<Rightarrow> (exn + unit) \<times> tree" where
  "rename_downloaded_files env t =
     (case lookup t [''zips''] of
        None \<Rightarrow> (Inr (), t)
      | Some top_dir \<Rightarrow>
          for_each (os_walk (listdir_order env) [''zips''] top_dir)
            (\<lambda>(current_path, zip_files).
               for_each zip_files (rename_downloaded_file current_path)) t)"

section \<open>\<open>download_from_url\<close>\<close>

text \<open>The statements between \<open>try:\<close> and \<open>except\<close>.\<close>

definition fetch :: "env \<Rightarrow> string \<Rightarrow> world \<Rightarrow> (exn + string option) \<times> world" where
  "fetch env url w =
     next_do (os_chdir env (zips_path env) w) (\<lambda>_ w1.
       let finish = (\<lambda>_ w2.
             next_do (on_files (rename_downloaded_files env) w2) (\<lambda>_ w3.
               (Inr (Some ''downloaded''), w3)))
       in if str_in ''drive.google.com'' url then
            (case extract_google_drive_id url of
               Inl e \<Rightarrow> (Inl e, w1)
             | Inr (Some (c # cs)) \<Rightarrow>
                 next_do
                   (on_files (gdown_download env (''https://drive.google.com/uc?id='' @ c # cs)) w1)
                   finish
             | Inr _ \<Rightarrow> (Inr None, logging (ERROR ''Invalid Google Drive URL'') w1))
          else if str_in ''/blob/'' url \<or> str_in ''/resolve/'' url then
            next_do (download_blob_or_resolve env url w1) finish
          else if str_in ''/tree/main'' url then
            next_do (download_from_huggingface env url w1) finish
          else next_do (download_file env url w1) finish)"

definition download_from_url :: "env \<Rightarrow> string \<Rightarrow> world \<Rightarrow> (exn + string option) \<times> world" where
  "download_from_url env url w =
     (case os_getcwd env w of
        Inl e \<Rightarrow> (Inl e, w)
      | Inr original_dir \<Rightarrow>
          try_finally
            (try_except (fetch env url)
               (\<lambda>error w'.
                  (Inr None,
                   logging (ERROR_exn ''An error occurred downloading the file: '' error) w')))
            (os_chdir env original_dir) w)"

section \<open>\<open>extract\<close> and \<open>handle_extraction_process\<close>\<close>

definition "extract" :: "env \<Rightarrow> path \<Rightarrow> path \<Rightarrow> world \<Rightarrow> (exn + bool) \<times> world" where
  "extract env zipfile_path unzips_path w =
     try_except
       (\<lambda>w. next_do (on_files (zip_extractall env zipfile_path unzips_path) w) (\<lambda>_ w1.
              next_do (on_files (os_remove zipfile_path) w1) (\<lambda>_ w2.
                (Inr True, w2))))
       (\<lambda>error w'.
          (Inr False, logging (ERROR_exn ''An error occurred extracting the zip file: '' error) w'))
       w"

text \<open>Running a function of the tree at a directory on that directory of a larger
  tree.\<close>

definition inside :: "path \<Rightarrow> (tree \<Rightarrow> 'r \<times> tree) \<Rightarrow> tree \<Rightarrow> 'r \<times> tree" where
  "inside p f t = (case f (lookup t p) of (r, sub) \<Rightarrow> (r, put p sub t))"

datatype outcome = Found "string list" "string list" | Error_string

text \<open>
  The loop of \<open>handle_extraction_process\<close> returns in its first round with a name that
  ends in \<open>.zip\<close>, so it is a search for that name; without one, \<open>extract_folder_path\<close>
  is still empty after the loop. \<open>os.path.basename\<close> of the joined path is the listed
  name again.
\<close>

definition handle_extraction_process :: "env \<Rightarrow> world \<Rightarrow> (exn + outcome) \<times> world" where
  "handle_extraction_process env w =
     (case os_listdir (listdir_order env) (files w) [''zips''] of
        Inl e \<Rightarrow> (Inl e, w)
      | Inr names \<Rightarrow>
          (case find (\<lambda>filename. str_endswith filename ''.zip'') names of
             None \<Rightarrow> (Inr Error_string, logging (ERROR ''Zip file was not found.'') w)
           | Some filename \<Rightarrow>
               (case and_then (str_split filename ''.zip'') (\<lambda>parts. index parts 0) of
                  Inl e \<Rightarrow> (Inl e, w)
                | Inr stem \<Rightarrow>
                    let zipfile_path = [''zips'', filename];
                        model_name = format_title env stem;
                        extract_folder_path = [model_name]
                    in next_do (extract env zipfile_path extract_folder_path w) (\<lambda>success w1.
                         if success then
                           next_do
                             (on_files
                                (inside extract_folder_path
                                   (\<lambda>t. clean_extracted_files (listdir_order env) t model_name))
                                w1)
                             (\<lambda>_ w2.
                                let w3 = logging (INFO (''Model '' @ model_name @ '' downloaded!'')) w2 in
                                case search_pth_index (listdir_order env)
                                       (os_path_join (logs_path env) model_name)
                                       (lookup (files w3) extract_folder_path) (logged w3) of
                                  (Inl e, lg) \<Rightarrow> (Inl e, w3\<lparr>logged := lg\<rparr>)
                                | (Inr (pth_paths, index_paths), lg) \<Rightarrow>
                                    (Inr (Found pth_paths index_paths), w3\<lparr>logged := lg\<rparr>))
                         else
                           (Inr Error_string,
                            logging (ERROR (''Error downloading '' @ model_name)) w1)))))"

definition model_download :: "env \<Rightarrow> string \<Rightarrow> world \<Rightarrow> (exn + outcome) \<times> world" where
  "model_download env url w =
     try_except
       (\<lambda>w. next_do (download_from_url env url w) (\<lambda>result w1.
              if result = Some ''downloaded'' then handle_extraction_process env w1
              else (Inr Error_string, w1)))
       (\<lambda>error w'. (Inr Error_string, logging (ERROR_exn ''An unexpected error occurred: '' error) w'))
       w"

section \<open>Well-formed trees and names\<close>




section \<open>An environment and a world to run the model in\<close>

text \<open>
  \<open>unquote_ascii\<close> decodes the escapes \<open>%XX\<close> as \<open>unquote\<close> does when every escape in
  the string is below \<open>0x80\<close> (such a byte is its own character in UTF-8); an escape
  without two hexadecimal digits stays as it is.
\<close>

definition hex_digit :: "char \<Rightarrow> nat option" where
  "hex_digit c =
     (let n = of_char c :: nat in
      if 48 \<le> n \<and> n \<le> 57 then Some (n - 48)
      else if 65 \<le> n \<and> n \<le> 70 then Some (n - 55)
      else if 97 \<le> n \<and> n \<le> 102 then Some (n - 87)
      else None)"

fun unquote_ascii :: "string \<Rightarrow> string" where
  "unquote_ascii (c # h # l # cs) =
     (if c = CHR ''%'' then
        (case (hex_digit h, hex_digit l) of
           (Some a, Some b) \<Rightarrow> char_of (16 * a + b) # unquote_ascii cs
         | _ \<Rightarrow> c # unquote_ascii (h # l # cs))
      else c # unquote_ascii (h # l # cs))"
| "unquote_ascii cs = cs"

text \<open>No network, an archive library that rejects everything, and a working directory
  \<open>/home/user\<close> that exists.\<close>

definition offline_env :: env where
  "offline_env =
     \<lparr>listdir_order = (\<lambda>names. names),
      zips_path = ''/home/user/.bfrvc/logs/zips'',
      logs_path = ''/home/user/.bfrvc/logs'',
      http_get = (\<lambda>url. Inl (LibraryError ''ConnectionError'')),
      gdown_download = (\<lambda>url t. (Inr (), t)),
      unquote_escapes = unquote_ascii,
      int_of_str = (\<lambda>s. Inr 0),
      find_all_a_href = (\<lambda>page. []),
      zip_extractall = (\<lambda>zipfile_path unzips_path t. (Inl (LibraryError ''BadZipFile''), t)),
      format_title = (\<lambda>title. title),
      dir_elsewhere = (\<lambda>p. p = ''/home/user'')\<rparr>"

definition idle_world :: world where
  "idle_world =
     \<lparr>files = Some (Dir [(''zips'', Dir [])]), logged = [], requested = [],
      cwd = ''/home/user''\<rparr>"


section \<open>Facts about the string operations\<close>



lemma str_partition_None: "str_partition sep s = None \<longleftrightarrow> \<not> sublist sep s"
  by (induction s) (auto simp: sublist_Cons_right split: option.splits)

lemma str_partition_first:
  assumes "sep \<noteq> []" "\<not> sublist sep (b @ butlast sep)"
  shows "str_partition sep (b @ sep @ a) = Some (b, a)"
  using assms
proof (induction b)
  case Nil
  then show ?case by (cases sep) simp_all
next
  case (Cons c b)
  have np: "\<not> prefix sep (c # b @ sep @ a)"
  proof
    assume p: "prefix sep (c # b @ sep @ a)"
    have "c # b @ sep @ a = ((c # b) @ butlast sep) @ (last sep # a)"
      using Cons.prems(1) by simp
    then have q: "prefix ((c # b) @ butlast sep) (c # b @ sep @ a)"
      by (metis prefixI)
    have "length sep \<le> length ((c # b) @ butlast sep)" by simp
    with p q have "prefix sep ((c # b) @ butlast sep)"
      by (metis prefix_length_prefix)
    then have "sublist sep ((c # b) @ butlast sep)" by (rule prefix_imp_sublist)
    with Cons.prems(2) show False by simp
  qed
  have "\<not> sublist sep (b @ butlast sep)"
    using Cons.prems(2) by (auto simp: sublist_Cons_right)
  with Cons.IH Cons.prems(1) have "str_partition sep (b @ sep @ a) = Some (b, a)" by simp
  with np show ?case by simp
qed

lemma split_parts_absent: "\<not> sublist sep s \<Longrightarrow> split_parts sep s = [s]"
  by (simp add: split_parts.simps str_partition_None [symmetric])

lemma split_parts_first:
  "sep \<noteq> [] \<Longrightarrow> \<not> sublist sep (b @ butlast sep) \<Longrightarrow>
   split_parts sep (b @ sep @ a) = b # split_parts sep a"
  by (subst split_parts.simps) (simp add: str_partition_first)

lemma split_parts_nonempty: "split_parts sep s \<noteq> []"
  by (subst split_parts.simps) (simp split: option.splits)

lemma split_parts_length: "sep \<noteq> [] \<Longrightarrow> sublist sep s \<Longrightarrow> 2 \<le> length (split_parts sep s)"
proof -
  assume a: "sep \<noteq> []" "sublist sep s"
  then obtain b r where "str_partition sep s = Some (b, r)"
    using str_partition_None [of sep s] by (cases "str_partition sep s") auto
  with a(1) have "split_parts sep s = b # split_parts sep r"
    by (subst split_parts.simps) simp
  moreover have "split_parts sep r \<noteq> []" by (rule split_parts_nonempty)
  ultimately show ?thesis by (cases "split_parts sep r") simp_all
qed

lemma str_partition_char:
  "str_partition [c] s =
     (if c \<in> set s then Some (takeWhile (\<lambda>x. x \<noteq> c) s, tl (dropWhile (\<lambda>x. x \<noteq> c) s)) else None)"
  by (induction s) auto

lemma split_parts_char_hd: "hd (split_parts [c] s) = takeWhile (\<lambda>x. x \<noteq> c) s"
proof (cases "c \<in> set s")
  case True
  then show ?thesis by (subst split_parts.simps) (simp add: str_partition_char)
next
  case False
  then have tw: "takeWhile (\<lambda>x. x \<noteq> c) s = s" by (auto simp: takeWhile_eq_all_conv)
  from False show ?thesis by (subst split_parts.simps) (simp add: str_partition_char tw)
qed

lemma file_d_prefix:
  assumes "CHR ''/'' \<notin> set ident" "prefix ''file/d/'' (ident @ CHR ''/'' # rest)"
  shows "ident = ''file'' \<and> prefix ''d/'' rest"
  using assms
  apply (cases ident, simp)
  subgoal for c1 t1
    apply (cases t1, simp)
    subgoal for c2 t2
      apply (cases t2, simp)
      subgoal for c3 t3
        apply (cases t3, simp)
        subgoal for c4 t4
          apply (cases t4, simp)
          apply simp
          done
        done
      done
    done
  done

lemma takeWhile_cut:
  "c \<notin> set ident \<Longrightarrow> takeWhile (\<lambda>x. x \<noteq> c) (ident @ c # r) = ident"
  by (induction ident) auto

lemma takeWhile_whole:
  "c \<notin> set ident \<Longrightarrow> takeWhile (\<lambda>x. x \<noteq> c) ident = ident"
  by (induction ident) auto

lemma partition_after_file_d:
  assumes "CHR ''/'' \<notin> set ident" "\<not> (suffix ''file'' ident \<and> prefix ''d/'' rest)"
  shows "str_partition ''file/d/'' (ident @ CHR ''/'' # rest) = None \<or>
         (\<exists>r a. str_partition ''file/d/'' (ident @ CHR ''/'' # rest) = Some (ident @ CHR ''/'' # r, a))"
  using assms
proof (induction ident)
  case Nil
  then show ?case by (auto split: option.splits)
next
  case (Cons c cs)
  have np: "\<not> prefix ''file/d/'' ((c # cs) @ CHR ''/'' # rest)"
  proof
    assume "prefix ''file/d/'' ((c # cs) @ CHR ''/'' # rest)"
    with Cons.prems(1) have "c # cs = ''file'' \<and> prefix ''d/'' rest"
      by (rule file_d_prefix)
    with Cons.prems(2) show False by simp
  qed
  have "\<not> (suffix ''file'' cs \<and> prefix ''d/'' rest)"
    using Cons.prems(2) by (auto intro: suffix_ConsI)
  with Cons.IH Cons.prems(1)
  have "str_partition ''file/d/'' (cs @ CHR ''/'' # rest) = None \<or>
        (\<exists>r a. str_partition ''file/d/'' (cs @ CHR ''/'' # rest) = Some (cs @ CHR ''/'' # r, a))"
    by simp
  with np show ?case by auto
qed

lemma id_prefix:
  assumes "CHR ''&'' \<notin> set ident" "prefix ''id='' (ident @ CHR ''&'' # r)"
  shows "prefix ''id='' ident"
  using assms
  apply (cases ident, simp)
  subgoal for c1 t1
    apply (cases t1, simp)
    subgoal for c2 t2
      apply (cases t2, simp)
      apply simp
      done
    done
  done

lemma partition_after_id:
  assumes "CHR ''&'' \<notin> set ident" "\<not> sublist ''id='' ident"
  shows "str_partition ''id='' (ident @ CHR ''&'' # rest) = None \<or>
         (\<exists>r a. str_partition ''id='' (ident @ CHR ''&'' # rest) = Some (ident @ CHR ''&'' # r, a))"
  using assms
proof (induction ident)
  case Nil
  then show ?case by (auto split: option.splits)
next
  case (Cons c cs)
  have np: "\<not> prefix ''id='' ((c # cs) @ CHR ''&'' # rest)"
  proof
    assume "prefix ''id='' ((c # cs) @ CHR ''&'' # rest)"
    with Cons.prems(1) have "prefix ''id='' (c # cs)" by (rule id_prefix)
    then have "sublist ''id='' (c # cs)" by (rule prefix_imp_sublist)
    with Cons.prems(2) show False by simp
  qed
  have "\<not> sublist ''id='' cs"
    using Cons.prems(2) by (auto simp: sublist_Cons_right)
  with Cons.IH Cons.prems(1)
  have "str_partition ''id='' (cs @ CHR ''&'' # rest) = None \<or>
        (\<exists>r a. str_partition ''id='' (cs @ CHR ''&'' # rest) = Some (cs @ CHR ''&'' # r, a))"
    by simp
  with np show ?case by auto
qed

lemma split_parts_hd:
  "sep \<noteq> [] \<Longrightarrow>
   hd (split_parts sep s) = (case str_partition sep s of None \<Rightarrow> s | Some (b, a) \<Rightarrow> b)"
  by (subst split_parts.simps) (simp split: option.splits)

lemma second_piece:
  assumes "sep \<noteq> []" "\<not> sublist sep (pre @ butlast sep)"
  shows "index (split_parts sep (pre @ sep @ t)) 1 = Inr (hd (split_parts sep t))"
proof -
  have "split_parts sep (pre @ sep @ t) = pre # split_parts sep t"
    using assms by (rule split_parts_first)
  moreover have "split_parts sep t \<noteq> []" by (rule split_parts_nonempty)
  ultimately show ?thesis by (cases "split_parts sep t") (simp_all add: index_def)
qed

lemma first_piece: "index (split_parts [c] s) 0 = Inr (takeWhile (\<lambda>x. x \<noteq> c) s)"
proof -
  have "split_parts [c] s \<noteq> []" by (rule split_parts_nonempty)
  then have "index (split_parts [c] s) 0 = Inr (hd (split_parts [c] s))"
    by (cases "split_parts [c] s") (simp_all add: index_def)
  then show ?thesis by (simp add: split_parts_char_hd)
qed

lemma extract_file_d:
  assumes first: "\<not> str_in ''file/d/'' (pre @ ''file/d'')"
    and ident: "CHR ''/'' \<notin> set ident"
    and clean: "\<not> (suffix ''file'' ident \<and> prefix ''d/'' rest)"
  shows "extract_google_drive_id (pre @ ''file/d/'' @ ident @ ''/'' @ rest) = Inr (Some ident)"
proof -
  let ?t = "ident @ CHR ''/'' # rest"
  have occurs: "str_in ''file/d/'' (pre @ ''file/d/'' @ ident @ ''/'' @ rest)"
    unfolding str_in_def by (rule sublist_appendI)
  have "index (split_parts ''file/d/'' (pre @ ''file/d/'' @ ?t)) 1
          = Inr (hd (split_parts ''file/d/'' ?t))"
    using first by (intro second_piece) (simp_all add: str_in_def)
  moreover have "takeWhile (\<lambda>x. x \<noteq> CHR ''/'') (hd (split_parts ''file/d/'' ?t)) = ident"
    using partition_after_file_d [OF ident clean] ident
    by (auto simp: split_parts_hd takeWhile_cut)
  ultimately show ?thesis
    using occurs
    by (simp add: extract_google_drive_id_def str_split_def and_then_def first_piece)
qed

lemma extract_id:
  assumes nofile: "\<not> str_in ''file/d/'' (pre @ ''id='' @ ident @ rest)"
    and first: "\<not> str_in ''id='' (pre @ ''id'')"
    and ident: "CHR ''&'' \<notin> set ident" "\<not> str_in ''id='' ident"
    and rest: "rest = [] \<or> hd rest = CHR ''&''"
  shows "extract_google_drive_id (pre @ ''id='' @ ident @ rest) = Inr (Some ident)"
proof -
  let ?t = "ident @ rest"
  have occurs: "str_in ''id='' (pre @ ''id='' @ ident @ rest)"
    unfolding str_in_def by (rule sublist_appendI)
  have "index (split_parts ''id='' (pre @ ''id='' @ ?t)) 1 = Inr (hd (split_parts ''id='' ?t))"
    using first by (intro second_piece) (simp_all add: str_in_def)
  moreover have "takeWhile (\<lambda>x. x \<noteq> CHR ''&'') (hd (split_parts ''id='' ?t)) = ident"
  proof (cases rest)
    case Nil
    with ident show ?thesis
      by (simp add: split_parts_absent str_in_def takeWhile_whole)
  next
    case (Cons c r)
    with rest have "rest = CHR ''&'' # r" by simp
    with partition_after_id [of ident r] ident show ?thesis
      by (auto simp: split_parts_hd takeWhile_cut str_in_def)
  qed
  ultimately show ?thesis
    using occurs nofile
    by (simp add: extract_google_drive_id_def str_split_def and_then_def first_piece)
qed

lemma extract_neither:
  "\<not> str_in ''file/d/'' url \<Longrightarrow> \<not> str_in ''id='' url \<Longrightarrow> extract_google_drive_id url = Inr None"
  by (simp add: extract_google_drive_id_def)

lemma extract_total: "\<exists>r. extract_google_drive_id url = Inr r"
proof -
  have second: "\<exists>x. index (split_parts sep url) 1 = Inr x"
    if "sep \<noteq> []" "str_in sep url" for sep
    using split_parts_length [of sep url] that by (simp add: index_def str_in_def)
  show ?thesis
  proof (cases "str_in ''file/d/'' url")
    case True
    with second [of "''file/d/''"] obtain x
      where "index (split_parts ''file/d/'' url) 1 = Inr x" by auto
    with True show ?thesis
      by (simp add: extract_google_drive_id_def str_split_def and_then_def first_piece)
  next
    case False
    show ?thesis
    proof (cases "str_in ''id='' url")
      case True
      with second [of "''id=''"] obtain x
        where "index (split_parts ''id='' url) 1 = Inr x" by auto
      with True False show ?thesis
        by (simp add: extract_google_drive_id_def str_split_def and_then_def first_piece)
    next
      case nid: False
      with False show ?thesis by (simp add: extract_google_drive_id_def)
    qed
  qed
qed

section \<open>Directory listings\<close>


lemma is_listing_set: "is_listing order \<Longrightarrow> set (order names) = set names"
  by (metis is_listing_def mset_eq_setD)

lemma is_listing_distinct: "is_listing order \<Longrightarrow> distinct (order names) = distinct names"
  by (metis is_listing_def mset_eq_imp_distinct_iff)

lemma is_listing_id: "is_listing (\<lambda>names. names)"
  by (simp add: is_listing_def)

lemma map_of_fst: "map_of es k = Some v \<Longrightarrow> k \<in> fst ` set es"
  by (metis domI dom_map_of_conv_image_fst)

lemma listed_files:
  assumes "is_listing order"
  shows "set (map (os_path_join folder)
           (filter (\<lambda>file. os_path_isfile (Some (Dir es)) [file] \<and> str_endswith file ext)
              (order (map fst es))))
         = top_level_files folder es ext"
proof -
  have isfile: "os_path_isfile (Some (Dir es)) [f] \<longleftrightarrow> (\<exists>c. map_of es f = Some (File c))"
    for f
    by (auto simp: os_path_isfile_def split: option.splits node.splits)
  have "set (order (map fst es)) = fst ` set es"
    using assms by (simp add: is_listing_set)
  then show ?thesis
    unfolding top_level_files_def
    by (auto simp: isfile dest: map_of_fst)
qed

section \<open>C10: the artifact search\<close>

text \<open>
  C10 (as amended). When nothing exists at \<open>folder\<close>, \<open>search_pth_index\<close> logs
  "Folder not found" and returns two empty lists without raising. When \<open>folder\<close> is a
  directory, it returns without raising and without logging, the first list holds exactly
  the paths of the top-level regular files whose names end in \<open>.pth\<close>, the second those
  whose names end in \<open>.index\<close>; entries of subdirectories and directories with such
  names are left out.
\<close>

theorem search_pth_index_cases:
  "(t = None \<longrightarrow>
      search_pth_index order folder t lg
        = (Inr ([], []), lg @ [ERROR (''Folder not found: '' @ folder)]))
   \<and> (is_listing order \<and> t = Some (Dir es) \<longrightarrow>
        (\<exists>pth_paths index_paths.
           search_pth_index order folder t lg = (Inr (pth_paths, index_paths), lg)
           \<and> set pth_paths = top_level_files folder es ''.pth''
           \<and> set index_paths = top_level_files folder es ''.index''))"
proof (intro conjI impI)
  assume "t = None"
  then show "search_pth_index order folder t lg
        = (Inr ([], []), lg @ [ERROR (''Folder not found: '' @ folder)])"
    by (simp add: search_pth_index_def os_path_exists_def)
next
  assume a: "is_listing order \<and> t = Some (Dir es)"
  then have run: "search_pth_index order folder t lg =
      (Inr (map (os_path_join folder)
              (filter (\<lambda>file. os_path_isfile (Some (Dir es)) [file] \<and> str_endswith file ''.pth'')
                 (order (map fst es))),
            map (os_path_join folder)
              (filter (\<lambda>file. os_path_isfile (Some (Dir es)) [file] \<and> str_endswith file ''.index'')
                 (order (map fst es)))), lg)"
    by (simp add: search_pth_index_def os_path_exists_def os_listdir_def)
  from a show "\<exists>pth_paths index_paths.
           search_pth_index order folder t lg = (Inr (pth_paths, index_paths), lg)
           \<and> set pth_paths = top_level_files folder es ''.pth''
           \<and> set index_paths = top_level_files folder es ''.index''"
    unfolding run using listed_files [of order folder es] by (intro exI conjI refl) blast+
qed

text \<open>
  The search is not total: \<open>os.path.exists\<close> holds for a path that names a regular
  file, and \<open>os.listdir\<close> then raises \<open>NotADirectoryError\<close>, which nothing catches.
\<close>

theorem search_pth_index_regular_file:
  "search_pth_index (\<lambda>names. names) ''logs/model.pth'' (Some (File ''weights'')) []
     = (Inl NotADirectoryError, [])"
  by (simp add: search_pth_index_def os_path_exists_def os_listdir_def)

theorem search_pth_index_cases_witness:
  "search_pth_index (\<lambda>names. names) ''logs/m'' None []
     = (Inr ([], []), [ERROR ''Folder not found: logs/m''])
   \<and> is_listing (\<lambda>names. names)
   \<and> (\<exists>pth_paths index_paths.
        search_pth_index (\<lambda>names. names) ''logs/m''
          (Some (Dir [(''m.pth'', File ''w''), (''sub'', Dir [(''x.pth'', File ''v'')])])) []
          = (Inr (pth_paths, index_paths), [])
        \<and> set pth_paths
            = top_level_files ''logs/m''
                [(''m.pth'', File ''w''), (''sub'', Dir [(''x.pth'', File ''v'')])] ''.pth''
        \<and> set index_paths
            = top_level_files ''logs/m''
                [(''m.pth'', File ''w''), (''sub'', Dir [(''x.pth'', File ''v'')])] ''.index'')"
  using search_pth_index_cases [where t = None and order = "\<lambda>names. names"
      and folder = "''logs/m''" and lg = "[]"]
    search_pth_index_cases [where order = "\<lambda>names. names" and folder = "''logs/m''"
      and t = "Some (Dir [(''m.pth'', File ''w''), (''sub'', Dir [(''x.pth'', File ''v'')])])"
      and es = "[(''m.pth'', File ''w''), (''sub'', Dir [(''x.pth'', File ''v'')])]"
      and lg = "[]"]
  by (simp add: is_listing_id)

section \<open>The rename step\<close>

lemma map_of_None_iff: "map_of d k = None \<longleftrightarrow> k \<notin> fst ` set d"
  by (simp add: map_of_eq_None_iff)






lemma names_delete: "fst ` set (AList.delete k al) = fst ` set al - {k}"
proof -
  have "fst ` set (AList.delete k al) = set (map fst (AList.delete k al))" by simp
  also have "\<dots> = set (removeAll k (map fst al))" by (simp only: delete_keys)
  finally show ?thesis by simp
qed











section \<open>The single-subfolder step\<close>

lemma hoist_item:
  assumes s: "map_of d s = Some (Dir r)" and x: "map_of r x = Some n" and xs: "x \<noteq> s"
    and nodir: "\<forall>es. map_of d x \<noteq> Some (Dir es)"
    and free: "(\<exists>es. n = Dir es) \<longrightarrow> map_of d x = None"
  shows "shutil_move [s, x] [x] (Some (Dir d))
           = (Inr (), Some (Dir (AList.update x n (AList.update s (Dir (AList.delete x r)) d))))"
proof -
  have notdir: "\<not> os_path_isdir (Some (Dir d)) [x]"
    using nodir by (auto simp: os_path_isdir_def split: option.splits node.splits)
  have "os_rename [s, x] [x] (Some (Dir d))
          = (Inr (), Some (Dir (AList.update x n (AList.update s (Dir (AList.delete x r)) d))))"
  proof (cases "map_of d x")
    case None
    with s x xs show ?thesis
      by (cases n) (simp_all add: os_rename_def set_entry_def update_conv')
  next
    case (Some old)
    with nodir obtain c where old: "old = File c" by (cases old) auto
    with Some free obtain c' where "n = File c'" by (cases n) auto
    with Some old s x xs show ?thesis
      by (simp add: os_rename_def set_entry_def update_conv')
  qed
  with notdir show ?thesis by (simp add: shutil_move_def move_to_def)
qed

lemma hoist_loop:
  assumes "distinct (map fst d)" "distinct (map fst r)" "map_of d s = Some (Dir r)"
    and "distinct its" "set its \<subseteq> fst ` set r" "s \<notin> set its"
    and "\<forall>k \<in> set its. \<forall>es. map_of d k \<noteq> Some (Dir es)"
    and "\<forall>k \<in> set its. (\<exists>es. map_of r k = Some (Dir es)) \<longrightarrow> map_of d k = None"
  shows "\<exists>d' r'. for_each its (\<lambda>item. shutil_move ([s] @ [item]) [item]) (Some (Dir d))
                    = (Inr (), Some (Dir d'))
           \<and> distinct (map fst d') \<and> distinct (map fst r')
           \<and> map_of d' s = Some (Dir r')
           \<and> map_of r' = map_of r |` (- set its)
           \<and> (\<forall>k. k \<noteq> s \<longrightarrow> map_of d' k = (if k \<in> set its then map_of r k else map_of d k))"
  using assms
proof (induction its arbitrary: d r)
  case Nil
  then show ?case by auto
next
  case (Cons x xs)
  from Cons.prems(5) obtain n where n: "map_of r x = Some n"
    by (cases "map_of r x") (auto simp: map_of_None_iff)
  from Cons.prems(6) have xs: "x \<noteq> s" by auto
  let ?r1 = "AList.delete x r"
  let ?d1 = "AList.update x n (AList.update s (Dir ?r1) d)"
  have step: "shutil_move [s, x] [x] (Some (Dir d)) = (Inr (), Some (Dir ?d1))"
    using Cons.prems(3) n xs Cons.prems(7,8) by (intro hoist_item) auto
  have d1: "map_of ?d1 = (map_of d)(s \<mapsto> Dir ?r1, x \<mapsto> n)"
    by (simp add: update_conv')
  have r1: "map_of ?r1 = (map_of r)(x := None)"
    by (simp add: delete_conv')
  have "distinct (map fst ?d1)"
    using Cons.prems(1) by (intro distinct_update)
  moreover have "distinct (map fst ?r1)"
    using Cons.prems(2) by (rule distinct_delete)
  moreover have "map_of ?d1 s = Some (Dir ?r1)"
    using xs by (simp add: d1)
  moreover have "distinct xs" using Cons.prems(4) by simp
  moreover have "set xs \<subseteq> fst ` set ?r1"
    using Cons.prems(4,5) by (auto simp: names_delete)
  moreover have "s \<notin> set xs" using Cons.prems(6) by simp
  moreover have "\<forall>k \<in> set xs. \<forall>es. map_of ?d1 k \<noteq> Some (Dir es)"
    using Cons.prems(4,6,7) by (auto simp: d1)
  moreover have "\<forall>k \<in> set xs. (\<exists>es. map_of ?r1 k = Some (Dir es)) \<longrightarrow> map_of ?d1 k = None"
    using Cons.prems(4,6,8) by (auto simp: d1 r1)
  ultimately obtain d' r'
    where run: "for_each xs (\<lambda>item. shutil_move ([s] @ [item]) [item]) (Some (Dir ?d1))
                    = (Inr (), Some (Dir d'))"
      and res: "distinct (map fst d')" "distinct (map fst r')" "map_of d' s = Some (Dir r')"
      and r': "map_of r' = map_of ?r1 |` (- set xs)"
      and d': "\<forall>k. k \<noteq> s \<longrightarrow> map_of d' k = (if k \<in> set xs then map_of ?r1 k else map_of ?d1 k)"
    using Cons.IH [of ?d1 ?r1] by blast
  from step run have "for_each (x # xs) (\<lambda>item. shutil_move ([s] @ [item]) [item]) (Some (Dir d))
                    = (Inr (), Some (Dir d'))"
    by simp
  moreover have "map_of r' = map_of r |` (- set (x # xs))"
    unfolding r' r1 by (auto simp: restrict_map_def fun_eq_iff)
  moreover have "\<forall>k. k \<noteq> s \<longrightarrow> map_of d' k = (if k \<in> set (x # xs) then map_of r k else map_of d k)"
    using d' n Cons.prems(4) by (auto simp: d1 r1)
  ultimately show ?case using res by blast
qed

lemma is_listing_filter:
  assumes "is_listing order"
  shows "mset (filter P (order names)) = mset (filter P names)"
  using assms by (simp add: is_listing_def)

lemma listed_subfolders_length:
  "is_listing order \<Longrightarrow>
   length (filter (\<lambda>f. os_path_isdir (Some (Dir d)) [f]) (order (map fst d)))
     = length (subfolders_of d)"
  unfolding subfolders_of_def by (metis is_listing_filter size_mset)

lemma listed_subfolders_single:
  assumes "is_listing order" "subfolders_of d = [s]"
  shows "filter (\<lambda>f. os_path_isdir (Some (Dir d)) [f]) (order (map fst d)) = [s]"
proof -
  have "mset (filter (\<lambda>f. os_path_isdir (Some (Dir d)) [f]) (order (map fst d))) = mset [s]"
    using assms unfolding subfolders_of_def by (metis is_listing_filter)
  then show ?thesis by (simp only: mset.simps mset_single_iff)
qed

lemma only_subfolder:
  assumes "subfolders_of d = [s]" "map_of d k = Some (Dir es)"
  shows "k = s"
proof -
  from assms(2) have "k \<in> fst ` set d" by (rule map_of_fst)
  moreover from assms(2) have "os_path_isdir (Some (Dir d)) [k]"
    by (simp add: os_path_isdir_def)
  ultimately have "k \<in> set (subfolders_of d)" by (auto simp: subfolders_of_def)
  with assms(1) show ?thesis by simp
qed

lemma map_of_empty_Nil:
  assumes "map_of r = Map.empty"
  shows "r = []"
proof (cases r)
  case Nil
  then show ?thesis .
next
  case (Cons e es)
  from assms have "map_of r (fst e) = None" by simp
  with Cons show ?thesis by simp
qed

lemma hoist_single:
  assumes order: "is_listing order"
    and dist: "distinct (map fst d)" "distinct (map fst r)"
    and single: "subfolders_of d = [s]" and s: "map_of d s = Some (Dir r)"
    and own: "s \<notin> fst ` set r"
    and free: "\<forall>k es. map_of r k = Some (Dir es) \<longrightarrow> map_of d k = None"
  shows "\<exists>d'. hoist_single_subfolder order (Some (Dir d)) = (Inr (), Some (Dir d'))
           \<and> distinct (map fst d')
           \<and> map_of d' s = None
           \<and> (\<forall>k n. map_of r k = Some n \<longrightarrow> map_of d' k = Some n)
           \<and> (\<forall>k. k \<noteq> s \<and> map_of r k = None \<longrightarrow> map_of d' k = map_of d k)"
proof -
  let ?items = "order (map fst r)"
  have items: "distinct ?items" "set ?items = fst ` set r"
    using order dist(2) by (simp_all add: is_listing_distinct is_listing_set)
  have "\<forall>k \<in> set ?items. \<forall>es. map_of d k \<noteq> Some (Dir es)"
    using only_subfolder [OF single] own items(2) by blast
  moreover have "\<forall>k \<in> set ?items. (\<exists>es. map_of r k = Some (Dir es)) \<longrightarrow> map_of d k = None"
    using free by blast
  moreover have "s \<notin> set ?items" using own items(2) by simp
  ultimately obtain d1 r1
    where loop: "for_each ?items (\<lambda>item. shutil_move ([s] @ [item]) [item]) (Some (Dir d))
                    = (Inr (), Some (Dir d1))"
      and d1: "distinct (map fst d1)" "map_of d1 s = Some (Dir r1)"
      and r1: "map_of r1 = map_of r |` (- set ?items)"
      and rest: "\<forall>k. k \<noteq> s \<longrightarrow> map_of d1 k = (if k \<in> set ?items then map_of r k else map_of d k)"
    using hoist_loop [OF dist s items(1), of] items(2) by blast
  have "map_of r1 = Map.empty"
    unfolding r1 items(2)
    by (auto simp: restrict_map_def fun_eq_iff map_of_None_iff)
  then have "r1 = []" by (rule map_of_empty_Nil)
  with d1(2) have rmdir: "os_rmdir [s] (Some (Dir d1)) = (Inr (), Some (Dir (AList.delete s d1)))"
    by (simp add: os_rmdir_def set_entry_def)
  have run: "hoist_single_subfolder order (Some (Dir d)) = (Inr (), Some (Dir (AList.delete s d1)))"
    using listed_subfolders_single [OF order single] s loop rmdir
    by (simp add: hoist_single_subfolder_def os_listdir_def next_do_def)
  have "distinct (map fst (AList.delete s d1))"
    using d1(1) by (rule distinct_delete)
  moreover have "map_of (AList.delete s d1) s = None"
    by (simp add: delete_conv')
  moreover have "\<forall>k n. map_of r k = Some n \<longrightarrow> map_of (AList.delete s d1) k = Some n"
  proof (intro allI impI)
    fix k n assume k: "map_of r k = Some n"
    then have "k \<in> fst ` set r" by (rule map_of_fst)
    with own have "k \<noteq> s" by auto
    with rest k \<open>k \<in> fst ` set r\<close> items(2) show "map_of (AList.delete s d1) k = Some n"
      by (simp add: delete_conv')
  qed
  moreover have "\<forall>k. k \<noteq> s \<and> map_of r k = None \<longrightarrow> map_of (AList.delete s d1) k = map_of d k"
    using rest items(2) by (auto simp: delete_conv' map_of_None_iff)
  ultimately show ?thesis using run by blast
qed

lemma hoist_not_single:
  assumes "is_listing order" "length (subfolders_of d) \<noteq> 1"
  shows "hoist_single_subfolder order (Some (Dir d)) = (Inr (), Some (Dir d))"
  using assms listed_subfolders_length [of order d]
  by (simp add: hoist_single_subfolder_def os_listdir_def)


section \<open>C3: hoisting the single subfolder\<close>

text \<open>
  C3 (as amended). When the extraction directory holds a number of subdirectories other
  than one, the hoist step of \<open>clean_extracted_files\<close> changes nothing. When it holds
  exactly one subdirectory \<open>s\<close>, no item of \<open>s\<close> is itself named \<open>s\<close>, and no
  directory among the items of \<open>s\<close> has the name of a top-level entry, the step returns
  without raising, every item of \<open>s\<close> is afterwards an entry of the extraction directory
  under its own name, \<open>s\<close> no longer exists, and the other top-level entries whose names
  no item carries are unchanged. (A file among the items replaces a top-level file of the
  same name.)
\<close>

theorem hoist_single_subfolder_moves:
  "(is_listing order \<and> length (subfolders_of d) \<noteq> 1
      \<longrightarrow> hoist_single_subfolder order (Some (Dir d)) = (Inr (), Some (Dir d)))
   \<and> (is_listing order \<and> distinct (map fst d) \<and> distinct (map fst r)
        \<and> subfolders_of d = [s] \<and> map_of d s = Some (Dir r)
        \<and> s \<notin> fst ` set r
        \<and> (\<forall>k es. map_of r k = Some (Dir es) \<longrightarrow> map_of d k = None)
      \<longrightarrow> (\<exists>d'. hoist_single_subfolder order (Some (Dir d)) = (Inr (), Some (Dir d'))
             \<and> distinct (map fst d')
             \<and> map_of d' s = None
             \<and> (\<forall>k n. map_of r k = Some n \<longrightarrow> map_of d' k = Some n)
             \<and> (\<forall>k. k \<noteq> s \<and> map_of r k = None \<longrightarrow> map_of d' k = map_of d k)))"
  using hoist_not_single [of order d] hoist_single [of order d r s] by blast

text \<open>
  Without the proviso the step fails: for an item named like the subfolder,
  \<open>shutil.move\<close> finds the destination to be a directory that already holds that
  name and raises \<open>shutil.Error\<close>; nothing is hoisted and the subfolder stays.
\<close>

theorem hoist_name_clash:
  "hoist_single_subfolder (\<lambda>names. names)
     (Some (Dir [(''wrapper'', Dir [(''wrapper'', File ''A''), (''b.index'', File ''B'')])]))
   = (Inl shutil_Error,
      Some (Dir [(''wrapper'', Dir [(''wrapper'', File ''A''), (''b.index'', File ''B'')])]))"
  by (simp add: hoist_single_subfolder_def os_listdir_def os_path_isdir_def next_do_def
      shutil_move_def os_path_exists_def)

theorem hoist_single_subfolder_moves_witness:
  "is_listing (\<lambda>names. names)
   \<and> length (subfolders_of [(''a.pth'', File ''A''), (''x'', Dir []), (''y'', Dir [])]) \<noteq> 1
   \<and> hoist_single_subfolder (\<lambda>names. names)
         (Some (Dir [(''a.pth'', File ''A''), (''x'', Dir []), (''y'', Dir [])]))
       = (Inr (), Some (Dir [(''a.pth'', File ''A''), (''x'', Dir []), (''y'', Dir [])]))
   \<and> subfolders_of [(''wrapper'', Dir [(''a.pth'', File ''A''), (''b.index'', File ''B'')])]
       = [''wrapper'']
   \<and> (\<exists>d'. hoist_single_subfolder (\<lambda>names. names)
              (Some (Dir [(''wrapper'', Dir [(''a.pth'', File ''A''), (''b.index'', File ''B'')])]))
            = (Inr (), Some (Dir d'))
          \<and> map_of d' ''wrapper'' = None
          \<and> map_of d' ''a.pth'' = Some (File ''A'')
          \<and> map_of d' ''b.index'' = Some (File ''B''))"
proof -
  let ?two = "[(''a.pth'', File ''A''), (''x'', Dir []), (''y'', Dir [])]"
  let ?r = "[(''a.pth'', File ''A''), (''b.index'', File ''B'')]"
  let ?d = "[(''wrapper'', Dir ?r)]"
  note thm1 = hoist_single_subfolder_moves [where order = "\<lambda>names. names" and d = ?two]
  note thm2 = hoist_single_subfolder_moves [where order = "\<lambda>names. names" and d = ?d
      and r = ?r and s = "''wrapper''"]
  have two: "length (subfolders_of ?two) \<noteq> 1"
    by (simp add: subfolders_of_def os_path_isdir_def)
  have one: "subfolders_of ?d = [''wrapper'']"
    by (simp add: subfolders_of_def os_path_isdir_def)
  from thm1 two have noop: "hoist_single_subfolder (\<lambda>names. names) (Some (Dir ?two))
       = (Inr (), Some (Dir ?two))"
    by (simp add: is_listing_id)
  from thm2 one obtain d' where
    "hoist_single_subfolder (\<lambda>names. names) (Some (Dir ?d)) = (Inr (), Some (Dir d'))"
    "map_of d' ''wrapper'' = None"
    "\<forall>k n. map_of ?r k = Some n \<longrightarrow> map_of d' k = Some n"
    by (auto simp: is_listing_id)
  then have "\<exists>d'. hoist_single_subfolder (\<lambda>names. names) (Some (Dir ?d)) = (Inr (), Some (Dir d'))
          \<and> map_of d' ''wrapper'' = None
          \<and> map_of d' ''a.pth'' = Some (File ''A'')
          \<and> map_of d' ''b.index'' = Some (File ''B'')"
    by (intro exI [of _ d']) simp
  with two one noop show ?thesis by (simp add: is_listing_id)
qed

section \<open>C4: the rename step\<close>



lemma rename_example_again:
  "rename_artifacts rev ''mymodel''
     (Some (Dir [(''notes.txt'', File ''N''), (''mymodel.pth'', File ''W''),
                 (''mymodel.index'', File ''I'')]))
   = (Inr (), Some (Dir [(''notes.txt'', File ''N''), (''mymodel.pth'', File ''W''),
                         (''mymodel.index'', File ''I'')]))"
  by (simp add: rename_artifacts_def os_listdir_def rename_item_def os_path_exists_def
      os_rename_def set_entry_def str_in_def sublist_code)

text \<open>A model name that contains \<open>.pth\<close> is why the theorem asks for one that does
  not: \<open>x.pth.index\<close> then counts as a weights file on the second run.\<close>

lemma rename_not_idempotent_pth_name:
  "rename_artifacts (\<lambda>names. names) ''x.pth'' (Some (Dir [(''b.index'', File ''I'')]))
     = (Inr (), Some (Dir [(''x.pth.index'', File ''I'')]))
   \<and> rename_artifacts (\<lambda>names. names) ''x.pth'' (Some (Dir [(''x.pth.index'', File ''I'')]))
     = (Inr (), Some (Dir [(''x.pth.pth'', File ''I'')]))"
  by (simp add: rename_artifacts_def os_listdir_def rename_item_def os_path_exists_def
      os_rename_def set_entry_def str_in_def sublist_code)


section \<open>The saved file name\<close>







section \<open>Writing below the staging directory\<close>

lemma map_of_set_entry: "map_of (set_entry c v es) = (map_of es)(c := v)"
  by (cases v) (simp_all add: set_entry_def update_conv' delete_conv')

lemma lookup_put_other:
  "k \<noteq> c \<Longrightarrow> lookup (put (c # cs) v t) (k # ks) = lookup t (k # ks)"
  by (auto simp: map_of_set_entry split: option.splits node.splits)

lemma lookup_put_sibling:
  "n' \<noteq> n \<Longrightarrow> lookup (put [c, n] v t) [c, n'] = lookup t [c, n']"
  by (auto simp: map_of_set_entry split: option.splits node.splits)

lemma lookup_put_same:
  "lookup t [c] = Some (Dir z) \<Longrightarrow> lookup (put [c, n] v t) [c, n] = v"
  by (auto simp: map_of_set_entry split: option.splits node.splits)

lemma lookup_put_parent:
  "lookup t [c] = Some (Dir z) \<Longrightarrow> \<exists>z'. lookup (put [c, n] v t) [c] = Some (Dir z')"
  by (auto simp: map_of_set_entry split: option.splits node.splits)

lemma lookup_child_parent:
  "lookup t [c, n] = Some x \<Longrightarrow> \<exists>z. lookup t [c] = Some (Dir z)"
  by (auto split: option.splits node.splits)

lemma open_wb_frame:
  assumes "open_wb [c, n] t = (r, t')"
  shows "(\<forall>k ks. k \<noteq> c \<longrightarrow> lookup t' (k # ks) = lookup t (k # ks))
         \<and> (\<forall>n'. n' \<noteq> n \<longrightarrow> lookup t' [c, n'] = lookup t [c, n'])
         \<and> (r = Inr () \<longrightarrow> lookup t' [c, n] = Some (File []))"
proof (cases r)
  case (Inl e)
  with assms have "t' = t"
    by (auto simp: open_wb_def split: if_splits option.splits node.splits list.splits)
  with Inl show ?thesis by simp
next
  case (Inr u)
  with assms have t': "t' = put [c, n] (Some (File [])) t"
    and parent: "\<exists>z. lookup t [c] = Some (Dir z)"
    by (auto simp: open_wb_def split: if_splits option.splits node.splits)
  from parent obtain z where "lookup t [c] = Some (Dir z)" by blast
  then have "lookup t' [c, n] = Some (File [])"
    unfolding t' by (rule lookup_put_same)
  then show ?thesis
    unfolding t' by (simp add: lookup_put_other lookup_put_sibling del: lookup.simps put.simps)
qed

lemma file_write_frame:
  "(\<forall>k ks. k \<noteq> c \<longrightarrow> lookup (file_write [c, n] data t) (k # ks) = lookup t (k # ks))
   \<and> (\<forall>n'. n' \<noteq> n \<longrightarrow> lookup (file_write [c, n] data t) [c, n'] = lookup t [c, n'])"
  unfolding file_write_def
  by (cases "lookup t [c, n]")
     (auto simp: lookup_put_other lookup_put_sibling simp del: lookup.simps put.simps
           split: node.splits)

lemma file_write_content:
  assumes "lookup t [c, n] = Some (File old)"
  shows "lookup (file_write [c, n] data t) [c, n] = Some (File (old @ data))"
proof -
  from lookup_child_parent [OF assms] obtain z where "lookup t [c] = Some (Dir z)"
    by blast
  then have "lookup (put [c, n] (Some (File (old @ data))) t) [c, n] = Some (File (old @ data))"
    by (rule lookup_put_same)
  with assms show ?thesis by (simp add: file_write_def del: lookup.simps put.simps)
qed

lemma write_chunks_frame:
  "(\<forall>k ks. k \<noteq> c \<longrightarrow>
      lookup (foldl (\<lambda>t data. file_write [c, n] data t) t datas) (k # ks) = lookup t (k # ks))
   \<and> (\<forall>n'. n' \<noteq> n \<longrightarrow>
      lookup (foldl (\<lambda>t data. file_write [c, n] data t) t datas) [c, n'] = lookup t [c, n'])"
proof (induction datas arbitrary: t)
  case Nil
  show ?case by simp
next
  case (Cons data datas)
  show ?case
    using Cons [of "file_write [c, n] data t"] file_write_frame [of c n data t]
    by (simp del: lookup.simps)
qed

lemma write_chunks_content:
  "lookup t [c, n] = Some (File old) \<Longrightarrow>
   lookup (foldl (\<lambda>t data. file_write [c, n] data t) t datas) [c, n]
     = Some (File (old @ concat datas))"
proof (induction datas arbitrary: t old)
  case Nil
  then show ?case by simp
next
  case (Cons data datas)
  from Cons.prems have "lookup (file_write [c, n] data t) [c, n] = Some (File (old @ data))"
    by (rule file_write_content)
  from Cons.IH [OF this] show ?case by (simp del: lookup.simps)
qed

lemma save_response_content_frame:
  assumes "save_response_content env response w = (r, w')"
  shows "(\<forall>k ks. k \<noteq> ''zips'' \<longrightarrow> lookup (files w') (k # ks) = lookup (files w) (k # ks))
         \<and> (\<forall>n. n \<noteq> file_name_of env response \<longrightarrow>
               lookup (files w') [''zips'', n] = lookup (files w) [''zips'', n])
         \<and> (r = Inr () \<longrightarrow>
               lookup (files w') [''zips'', file_name_of env response]
                 = Some (File (concat (chunks response))))
         \<and> logged w' = logged w \<and> requested w' = requested w \<and> cwd w' = cwd w"
proof -
  let ?p = "[''zips'', file_name_of env response]"
  obtain r1 t1 where op: "open_wb ?p (files w) = (r1, t1)" by (cases "open_wb ?p (files w)")
  note fr = open_wb_frame [OF op]
  let ?t2 = "foldl (\<lambda>t data. file_write ?p data t) t1 (chunks response)"
  note wr = write_chunks_frame [of "''zips''" "file_name_of env response" t1 "chunks response"]
  show ?thesis
  proof (cases "case header_content_length response of None \<Rightarrow> Inr 0 | Some h \<Rightarrow> int_of_str env h")
    case (Inl e)
    with assms show ?thesis by (auto simp: save_response_content_def)
  next
    case (Inr total_size)
    show ?thesis
    proof (cases r1)
      case (Inl e)
      with assms Inr op have "w' = w\<lparr>files := t1\<rparr>"
        by (simp add: save_response_content_def next_do_def on_files_def)
      moreover from assms Inr op Inl have "r \<noteq> Inr ()"
        by (auto simp: save_response_content_def next_do_def on_files_def)
      ultimately show ?thesis using fr by (simp del: lookup.simps)
    next
      case ok: (Inr u)
      with assms Inr op have w': "w' = w\<lparr>files := ?t2\<rparr>"
        by (auto simp: save_response_content_def next_do_def on_files_def Let_def
            split: option.splits)
      from fr ok have "lookup t1 ?p = Some (File [])" by simp
      from write_chunks_content [OF this, of "chunks response"]
      have "lookup ?t2 ?p = Some (File (concat (chunks response)))" by (simp del: lookup.simps)
      with fr wr show ?thesis unfolding w' by (simp del: lookup.simps)
    qed
  qed
qed

section \<open>C8: the name a response is saved under\<close>




section \<open>C7: a response other than 200\<close>

text \<open>
  C7. When the server answers the GET of \<open>download_file\<close> with a status code other than
  200, the call raises the \<open>ValueError\<close> that carries that code, and the request is the
  only trace it leaves: the files are as they were. With status 200 the call is the
  stream-to-file step on that response.
\<close>

theorem download_file_status:
  assumes "http_get env url = Inr response"
  shows "(status_code response \<noteq> 200 \<longrightarrow>
            download_file env url w
              = (Inl (ValueError_status (status_code response)),
                 w\<lparr>requested := requested w @ [url]\<rparr>)
            \<and> files (snd (download_file env url w)) = files w)
         \<and> (status_code response = 200 \<longrightarrow>
            download_file env url w
              = save_response_content env response (w\<lparr>requested := requested w @ [url]\<rparr>))"
  using assms by (simp add: download_file_def requests_get_stream_def next_do_def)

theorem download_file_status_witness:
  "http_get (offline_env\<lparr>http_get := \<lambda>url.
        Inr \<lparr>status_code = 404, header_content_disposition = None,
             header_content_length = None, chunks = [''Not Found''], stream_error = None\<rparr>\<rparr>)
      ''https://example.com/model.zip''
     = Inr \<lparr>status_code = 404, header_content_disposition = None,
            header_content_length = None, chunks = [''Not Found''], stream_error = None\<rparr>
   \<and> download_file (offline_env\<lparr>http_get := \<lambda>url.
        Inr \<lparr>status_code = 404, header_content_disposition = None,
             header_content_length = None, chunks = [''Not Found''], stream_error = None\<rparr>\<rparr>)
      ''https://example.com/model.zip'' idle_world
     = (Inl (ValueError_status 404),
        idle_world\<lparr>requested := [''https://example.com/model.zip'']\<rparr>)"
proof -
  let ?r = "\<lparr>status_code = 404, header_content_disposition = None,
             header_content_length = None, chunks = [''Not Found''], stream_error = None\<rparr>"
  let ?env = "offline_env\<lparr>http_get := \<lambda>url. Inr ?r\<rparr>"
  have h: "http_get ?env ''https://example.com/model.zip'' = Inr ?r" by simp
  from download_file_status [OF h, of idle_world] h show ?thesis
    by (simp add: idle_world_def)
qed

section \<open>C2: the URL that \<open>download_blob_or_resolve\<close> requests\<close>

lemma replace_parts_first:
  assumes "old \<noteq> []" "\<not> sublist old (pre @ butlast old)"
  shows "replace_parts old new (pre @ old @ rest) = pre @ new @ replace_parts old new rest"
  using assms by (subst replace_parts.simps) (simp add: str_partition_first)

lemma replace_parts_absent: "\<not> sublist old s \<Longrightarrow> replace_parts old new s = s"
  by (subst replace_parts.simps) (simp add: str_partition_None [symmetric])

lemma requested_get_then_save:
  "requested (snd (next_do (requests_get_stream env url w) (\<lambda>response w'.
        if status_code response = 200 then save_response_content env response w'
        else (Inl (ValueError_status (status_code response)), w'))))
     = requested w @ [url]"
proof (cases "http_get env url")
  case (Inl e)
  then show ?thesis by (simp add: requests_get_stream_def next_do_def)
next
  case (Inr response)
  let ?w = "w\<lparr>requested := requested w @ [url]\<rparr>"
  have "requested (snd (save_response_content env response ?w)) = requested ?w"
    using save_response_content_frame [of env response ?w]
    by (cases "save_response_content env response ?w") simp
  with Inr show ?thesis by (simp add: requests_get_stream_def next_do_def)
qed

lemma requested_blob_or_resolve:
  "requested (snd (download_blob_or_resolve env url w))
     = requested w
       @ [if str_in ''/blob/'' url then str_replace url ''/blob/'' ''/resolve/'' else url]"
  unfolding download_blob_or_resolve_def Let_def by (rule requested_get_then_save)

text \<open>
  C2 (as amended). \<open>download_blob_or_resolve\<close> requests the URL with every occurrence
  of \<open>/blob/\<close> replaced by \<open>/resolve/\<close>: the first occurrence is replaced and the text
  after it is rewritten in the same way, a text without \<open>/blob/\<close> staying as it is. A URL
  without \<open>/blob/\<close> is requested unchanged.
\<close>

theorem blob_rewritten_everywhere:
  "(\<not> str_in ''/blob/'' url \<longrightarrow>
      requested (snd (download_blob_or_resolve env url w)) = requested w @ [url])
   \<and> (\<forall>pre rest. url = pre @ ''/blob/'' @ rest \<and> \<not> str_in ''/blob/'' (pre @ ''/blob'') \<longrightarrow>
        requested (snd (download_blob_or_resolve env url w))
          = requested w @ [pre @ ''/resolve/'' @ str_replace rest ''/blob/'' ''/resolve/''])
   \<and> (\<forall>s. \<not> str_in ''/blob/'' s \<longrightarrow> str_replace s ''/blob/'' ''/resolve/'' = s)"
proof (intro conjI allI impI)
  assume "\<not> str_in ''/blob/'' url"
  then show "requested (snd (download_blob_or_resolve env url w)) = requested w @ [url]"
    by (simp add: requested_blob_or_resolve)
next
  fix pre rest
  assume a: "url = pre @ ''/blob/'' @ rest \<and> \<not> str_in ''/blob/'' (pre @ ''/blob'')"
  then have "str_in ''/blob/'' url"
    unfolding str_in_def using sublist_appendI [of "''/blob/''" pre rest] by simp
  moreover from a have "str_replace url ''/blob/'' ''/resolve/''
      = pre @ ''/resolve/'' @ str_replace rest ''/blob/'' ''/resolve/''"
    using replace_parts_first [of "''/blob/''" pre "''/resolve/''" rest]
    by (simp add: str_replace_def str_in_def)
  ultimately show "requested (snd (download_blob_or_resolve env url w))
          = requested w @ [pre @ ''/resolve/'' @ str_replace rest ''/blob/'' ''/resolve/'']"
    by (simp add: requested_blob_or_resolve)
next
  fix s
  assume "\<not> str_in ''/blob/'' s"
  then show "str_replace s ''/blob/'' ''/resolve/'' = s"
    by (simp add: str_replace_def str_in_def replace_parts_absent)
qed

text \<open>The second occurrence does not survive: no \<open>/blob/\<close> is left in the URL
  requested for \<open>https://host/blob/main/blob/x\<close>.\<close>

theorem blob_second_occurrence:
  "requested (snd (download_blob_or_resolve offline_env ''https://host/blob/main/blob/x''
                     idle_world))
     = [''https://host/resolve/main/resolve/x'']
   \<and> \<not> str_in ''/blob/'' ''https://host/resolve/main/resolve/x''"
  by (simp add: requested_blob_or_resolve idle_world_def str_in_def sublist_code
      str_replace_def replace_parts.simps)

theorem blob_rewritten_everywhere_witness:
  "\<not> str_in ''/blob/'' ''https://huggingface.co/u/r/resolve/main/model.zip''
   \<and> requested (snd (download_blob_or_resolve offline_env
                       ''https://huggingface.co/u/r/resolve/main/model.zip'' idle_world))
       = [''https://huggingface.co/u/r/resolve/main/model.zip'']
   \<and> \<not> str_in ''/blob/'' (''https://huggingface.co/u/r'' @ ''/blob'')
   \<and> \<not> str_in ''/blob/'' ''main/model.zip''
   \<and> requested (snd (download_blob_or_resolve offline_env
                       (''https://huggingface.co/u/r'' @ ''/blob/'' @ ''main/model.zip'')
                       idle_world))
       = [''https://huggingface.co/u/r/resolve/main/model.zip'']"
proof -
  have a: "\<not> str_in ''/blob/'' ''https://huggingface.co/u/r/resolve/main/model.zip''"
    and b: "\<not> str_in ''/blob/'' (''https://huggingface.co/u/r'' @ ''/blob'')"
    and c: "\<not> str_in ''/blob/'' ''main/model.zip''"
    by (simp_all add: str_in_def sublist_code)
  note one = blob_rewritten_everywhere
    [of "''https://huggingface.co/u/r/resolve/main/model.zip''" offline_env idle_world]
  note two = blob_rewritten_everywhere
    [of "''https://huggingface.co/u/r'' @ ''/blob/'' @ ''main/model.zip''" offline_env idle_world]
  from one a have r1: "requested (snd (download_blob_or_resolve offline_env
                       ''https://huggingface.co/u/r/resolve/main/model.zip'' idle_world))
       = [''https://huggingface.co/u/r/resolve/main/model.zip'']"
    by (simp add: idle_world_def)
  from two b have "requested (snd (download_blob_or_resolve offline_env
                       (''https://huggingface.co/u/r'' @ ''/blob/'' @ ''main/model.zip'')
                       idle_world))
       = requested idle_world @ [''https://huggingface.co/u/r'' @ ''/resolve/''
            @ str_replace ''main/model.zip'' ''/blob/'' ''/resolve/'']"
    by blast
  moreover from two c have "str_replace ''main/model.zip'' ''/blob/'' ''/resolve/''
       = ''main/model.zip''"
    by blast
  ultimately have r2: "requested (snd (download_blob_or_resolve offline_env
                       (''https://huggingface.co/u/r'' @ ''/blob/'' @ ''main/model.zip'')
                       idle_world))
       = [''https://huggingface.co/u/r/resolve/main/model.zip'']"
    by (simp add: idle_world_def)
  from a b c r1 r2 show ?thesis by blast
qed

section \<open>C5: the archive extractor\<close>

lemma lookup_put_None: "lookup (put p None t) p = None"
proof (induction p arbitrary: t)
  case Nil
  show ?case by simp
next
  case (Cons c cs)
  show ?case
  proof (cases t)
    case None
    then show ?thesis by simp
  next
    case (Some n)
    show ?thesis
    proof (cases n)
      case (File x)
      with Some show ?thesis by simp
    next
      case (Dir es)
      with Some Cons [of "map_of es c"] show ?thesis
        by (simp add: map_of_set_entry)
    qed
  qed
qed

lemma os_remove_gone: "os_remove p t = (Inr (), t') \<Longrightarrow> lookup t' p = None"
  by (auto simp: os_remove_def lookup_put_None split: option.splits node.splits)

text \<open>
  C5. \<open>extract\<close> returns \<open>True\<close> or \<open>False\<close> and never raises. When unpacking raises,
  the result is \<open>False\<close>, the exception is logged, and the files are as the unpacking left
  them: \<open>os.remove\<close> has not run, so the archive is removed by nobody. When unpacking
  returns and the removal raises, the result is \<open>False\<close> as well, with the exception
  logged. The result is \<open>True\<close> when both return, and then nothing is left at the path
  of the archive.
\<close>

theorem extract_guarded:
  "(\<exists>success w'. extract env zipfile_path unzips_path w = (Inr success, w'))
   \<and> (\<forall>e t'. zip_extractall env zipfile_path unzips_path (files w) = (Inl e, t') \<longrightarrow>
        extract env zipfile_path unzips_path w
          = (Inr False,
             logging (ERROR_exn ''An error occurred extracting the zip file: '' e)
               (w\<lparr>files := t'\<rparr>)))
   \<and> (\<forall>t' e t''. zip_extractall env zipfile_path unzips_path (files w) = (Inr (), t')
          \<and> os_remove zipfile_path t' = (Inl e, t'') \<longrightarrow>
        extract env zipfile_path unzips_path w
          = (Inr False,
             logging (ERROR_exn ''An error occurred extracting the zip file: '' e)
               (w\<lparr>files := t''\<rparr>)))
   \<and> (\<forall>t' t''. zip_extractall env zipfile_path unzips_path (files w) = (Inr (), t')
          \<and> os_remove zipfile_path t' = (Inr (), t'') \<longrightarrow>
        extract env zipfile_path unzips_path w = (Inr True, w\<lparr>files := t''\<rparr>)
        \<and> lookup t'' zipfile_path = None)"
proof -
  obtain r1 t1 where unzip: "zip_extractall env zipfile_path unzips_path (files w) = (r1, t1)"
    by (cases "zip_extractall env zipfile_path unzips_path (files w)")
  obtain r2 t2 where remove: "os_remove zipfile_path t1 = (r2, t2)"
    by (cases "os_remove zipfile_path t1")
  show ?thesis
  proof (cases r1)
    case (Inl e)
    with unzip show ?thesis
      by (auto simp: extract_def try_except_def next_do_def on_files_def)
  next
    case (Inr u)
    show ?thesis
    proof (cases r2)
      case (Inl e)
      with unzip remove Inr show ?thesis
        by (auto simp: extract_def try_except_def next_do_def on_files_def)
    next
      case ok: (Inr u2)
      with remove have "lookup t2 zipfile_path = None" by (auto dest: os_remove_gone)
      with unzip remove Inr ok show ?thesis
        by (auto simp: extract_def try_except_def next_do_def on_files_def)
    qed
  qed
qed

theorem extract_guarded_witness:
  "zip_extractall offline_env [''zips'', ''m.zip''] [''m'']
      (files (idle_world\<lparr>files := Some (Dir [(''zips'', Dir [(''m.zip'', File ''PK'')])])\<rparr>))
     = (Inl (LibraryError ''BadZipFile''), Some (Dir [(''zips'', Dir [(''m.zip'', File ''PK'')])]))
   \<and> extract offline_env [''zips'', ''m.zip''] [''m'']
        (idle_world\<lparr>files := Some (Dir [(''zips'', Dir [(''m.zip'', File ''PK'')])])\<rparr>)
     = (Inr False,
        idle_world\<lparr>files := Some (Dir [(''zips'', Dir [(''m.zip'', File ''PK'')])]),
                    logged := [ERROR_exn ''An error occurred extracting the zip file: ''
                                 (LibraryError ''BadZipFile'')]\<rparr>)
   \<and> zip_extractall (offline_env\<lparr>zip_extractall := \<lambda>zipfile_path unzips_path t.
            (Inr (), put unzips_path (Some (Dir [(''a.pth'', File ''W'')])) t)\<rparr>)
        [''zips'', ''m.zip''] [''m'']
        (files (idle_world\<lparr>files := Some (Dir [(''zips'', Dir [(''m.zip'', File ''PK'')])])\<rparr>))
     = (Inr (), Some (Dir [(''zips'', Dir [(''m.zip'', File ''PK'')]),
                           (''m'', Dir [(''a.pth'', File ''W'')])]))
   \<and> os_remove [''zips'', ''m.zip'']
        (Some (Dir [(''zips'', Dir [(''m.zip'', File ''PK'')]),
                    (''m'', Dir [(''a.pth'', File ''W'')])]))
     = (Inr (), Some (Dir [(''zips'', Dir []), (''m'', Dir [(''a.pth'', File ''W'')])]))
   \<and> extract (offline_env\<lparr>zip_extractall := \<lambda>zipfile_path unzips_path t.
            (Inr (), put unzips_path (Some (Dir [(''a.pth'', File ''W'')])) t)\<rparr>)
        [''zips'', ''m.zip''] [''m'']
        (idle_world\<lparr>files := Some (Dir [(''zips'', Dir [(''m.zip'', File ''PK'')])])\<rparr>)
     = (Inr True,
        idle_world\<lparr>files := Some (Dir [(''zips'', Dir []),
                                         (''m'', Dir [(''a.pth'', File ''W'')])])\<rparr>)"
proof -
  let ?t = "Some (Dir [(''zips'', Dir [(''m.zip'', File ''PK'')])])"
  let ?w = "idle_world\<lparr>files := ?t\<rparr>"
  let ?env = "offline_env\<lparr>zip_extractall := \<lambda>zipfile_path unzips_path t.
            (Inr (), put unzips_path (Some (Dir [(''a.pth'', File ''W'')])) t)\<rparr>"
  let ?t1 = "Some (Dir [(''zips'', Dir [(''m.zip'', File ''PK'')]),
                        (''m'', Dir [(''a.pth'', File ''W'')])])"
  let ?t2 = "Some (Dir [(''zips'', Dir []), (''m'', Dir [(''a.pth'', File ''W'')])])"
  have bad: "zip_extractall offline_env [''zips'', ''m.zip''] [''m''] (files ?w)
     = (Inl (LibraryError ''BadZipFile''), ?t)"
    by (simp add: offline_env_def)
  have good: "zip_extractall ?env [''zips'', ''m.zip''] [''m''] (files ?w) = (Inr (), ?t1)"
    by (simp add: set_entry_def)
  have gone: "os_remove [''zips'', ''m.zip''] ?t1 = (Inr (), ?t2)"
    by (simp add: os_remove_def set_entry_def)
  from extract_guarded [of offline_env "[''zips'', ''m.zip'']" "[''m'']" ?w] bad
  have failed: "extract offline_env [''zips'', ''m.zip''] [''m''] ?w
     = (Inr False, logging (ERROR_exn ''An error occurred extracting the zip file: ''
          (LibraryError ''BadZipFile'')) (?w\<lparr>files := ?t\<rparr>))"
    by blast
  from extract_guarded [of ?env "[''zips'', ''m.zip'']" "[''m'']" ?w] good gone
  have finished: "extract ?env [''zips'', ''m.zip''] [''m''] ?w = (Inr True, ?w\<lparr>files := ?t2\<rparr>)"
    by blast
  from bad good gone failed finished show ?thesis
    by (simp add: logging_def idle_world_def)
qed

section \<open>C6: the guard of \<open>download_from_url\<close>\<close>


lemma restore_cwd:
  assumes "dir \<noteq> zips_path env" "dir_elsewhere env dir"
  shows "os_chdir env dir w' = (Inr (), w'\<lparr>cwd := dir\<rparr>)"
  using assms by (simp add: os_chdir_def dir_exists_def)

lemma download_from_url_returned:
  assumes "cwd w \<noteq> zips_path env" "dir_elsewhere env (cwd w)"
    and "fetch env url w = (Inr x, w1)"
  shows "download_from_url env url w = (Inr x, w1\<lparr>cwd := cwd w\<rparr>)"
proof -
  have "os_getcwd env w = Inr (cwd w)"
    using assms(1,2) by (simp add: os_getcwd_def dir_exists_def)
  with assms(3) restore_cwd [OF assms(1,2)] show ?thesis
    by (simp add: download_from_url_def try_finally_def try_except_def)
qed

lemma download_from_url_caught:
  assumes "cwd w \<noteq> zips_path env" "dir_elsewhere env (cwd w)"
    and "fetch env url w = (Inl e, w1)"
  shows "download_from_url env url w
           = (Inr None,
              (logging (ERROR_exn ''An error occurred downloading the file: '' e) w1)
                \<lparr>cwd := cwd w\<rparr>)"
proof -
  have "os_getcwd env w = Inr (cwd w)"
    using assms(1,2) by (simp add: os_getcwd_def dir_exists_def)
  with assms(3) restore_cwd [OF assms(1,2)] show ?thesis
    by (simp add: download_from_url_def try_finally_def try_except_def logging_def)
qed


text \<open>
  \<open>os.getcwd()\<close> stands before the \<open>try\<close>: called in a working directory that no
  longer exists, the function raises \<open>FileNotFoundError\<close>. Its caller
  \<open>model_download\<close> guards the whole call and never raises.
\<close>

lemma model_download_total: "\<exists>r w'. model_download env url w = (Inr r, w')"
  unfolding model_download_def try_except_def
  by (auto split: prod.splits sum.splits)




section \<open>C1: the Google Drive identifier\<close>

lemma invalid_drive_url:
  assumes drive: "str_in ''drive.google.com'' url"
    and none: "extract_google_drive_id url = Inr None"
    and cwd: "cwd w \<noteq> zips_path env" "dir_elsewhere env (cwd w)"
    and staging: "lookup (files w) [''zips''] = Some (Dir z)"
  shows "download_from_url env url w
           = (Inr None, logging (ERROR ''Invalid Google Drive URL'') w)"
proof -
  have "os_chdir env (zips_path env) w = (Inr (), w\<lparr>cwd := zips_path env\<rparr>)"
    using staging by (simp add: os_chdir_def dir_exists_def del: lookup.simps)
  with drive none
  have "fetch env url w
          = (Inr None, logging (ERROR ''Invalid Google Drive URL'') (w\<lparr>cwd := zips_path env\<rparr>))"
    by (simp add: fetch_def next_do_def)
  from download_from_url_returned [OF cwd this] show ?thesis
    by (simp add: logging_def)
qed

text \<open>
  C1 (as amended). \<open>extract_google_drive_id\<close> never raises. It cuts the URL at the first
  \<open>file/d/\<close> and returns the identifier that follows, up to the next \<open>/\<close>, unless the
  identifier ends in \<open>file\<close> and \<open>d/\<close> comes after the \<open>/\<close> (the text then begins
  another \<open>file/d/\<close>, where \<open>split\<close> cuts again). In a URL without \<open>file/d/\<close> it cuts at
  the first \<open>id=\<close> and returns the identifier that follows, up to the next \<open>&\<close> or the end
  of the URL, provided the identifier holds no further \<open>id=\<close>. For a URL that contains
  neither \<open>file/d/\<close> nor \<open>id=\<close> it returns \<open>None\<close>, and \<open>download_from_url\<close>, called on such
  a Google Drive URL in an existing working directory with the staging directory in
  place, logs "Invalid Google Drive URL" and returns \<open>None\<close> without raising and without
  any other effect.
\<close>

theorem extract_google_drive_id_cases:
  "(\<exists>r. extract_google_drive_id url = Inr r)
   \<and> (\<forall>pre ident rest.
        url = pre @ ''file/d/'' @ ident @ ''/'' @ rest
        \<and> \<not> str_in ''file/d/'' (pre @ ''file/d'')
        \<and> CHR ''/'' \<notin> set ident
        \<and> \<not> (suffix ''file'' ident \<and> prefix ''d/'' rest)
        \<longrightarrow> extract_google_drive_id url = Inr (Some ident))
   \<and> (\<forall>pre ident rest.
        url = pre @ ''id='' @ ident @ rest
        \<and> \<not> str_in ''file/d/'' url
        \<and> \<not> str_in ''id='' (pre @ ''id'')
        \<and> CHR ''&'' \<notin> set ident \<and> \<not> str_in ''id='' ident
        \<and> (rest = [] \<or> hd rest = CHR ''&'')
        \<longrightarrow> extract_google_drive_id url = Inr (Some ident))
   \<and> (\<not> str_in ''file/d/'' url \<and> \<not> str_in ''id='' url
        \<longrightarrow> extract_google_drive_id url = Inr None
          \<and> (\<forall>env w z. str_in ''drive.google.com'' url
                \<and> cwd w \<noteq> zips_path env \<and> dir_elsewhere env (cwd w)
                \<and> lookup (files w) [''zips''] = Some (Dir z)
                \<longrightarrow> download_from_url env url w
                      = (Inr None, logging (ERROR ''Invalid Google Drive URL'') w)))"
proof (intro conjI allI impI)
  show "\<exists>r. extract_google_drive_id url = Inr r" by (rule extract_total)
next
  fix pre ident rest
  assume "url = pre @ ''file/d/'' @ ident @ ''/'' @ rest
        \<and> \<not> str_in ''file/d/'' (pre @ ''file/d'')
        \<and> CHR ''/'' \<notin> set ident
        \<and> \<not> (suffix ''file'' ident \<and> prefix ''d/'' rest)"
  then show "extract_google_drive_id url = Inr (Some ident)"
    using extract_file_d [of pre ident rest] by blast
next
  fix pre ident rest
  assume "url = pre @ ''id='' @ ident @ rest
        \<and> \<not> str_in ''file/d/'' url
        \<and> \<not> str_in ''id='' (pre @ ''id'')
        \<and> CHR ''&'' \<notin> set ident \<and> \<not> str_in ''id='' ident
        \<and> (rest = [] \<or> hd rest = CHR ''&'')"
  then show "extract_google_drive_id url = Inr (Some ident)"
    using extract_id [of pre ident rest] by blast
next
  assume "\<not> str_in ''file/d/'' url \<and> \<not> str_in ''id='' url"
  then show "extract_google_drive_id url = Inr None"
    by (simp add: extract_neither)
next
  fix env :: env and w :: world and z
  assume "\<not> str_in ''file/d/'' url \<and> \<not> str_in ''id='' url"
    and "str_in ''drive.google.com'' url
                \<and> cwd w \<noteq> zips_path env \<and> dir_elsewhere env (cwd w)
                \<and> lookup (files w) [''zips''] = Some (Dir z)"
  then show "download_from_url env url w
                      = (Inr None, logging (ERROR ''Invalid Google Drive URL'') w)"
    using invalid_drive_url [of url w env z] by (simp add: extract_neither del: lookup.simps)
qed

text \<open>
  The identifier of the claim is what stands between \<open>file/d/\<close> and the next \<open>/\<close>:
  here \<open>1abcfile\<close>. The function returns \<open>1abc\<close>.
\<close>

theorem extract_google_drive_id_cut_short:
  "''https://drive.google.com/file/d/1abcfile/d/x/view''
     = ''https://drive.google.com/'' @ ''file/d/'' @ ''1abcfile'' @ ''/'' @ ''d/x/view''
   \<and> \<not> str_in ''file/d/'' (''https://drive.google.com/'' @ ''file/d'')
   \<and> CHR ''/'' \<notin> set ''1abcfile''
   \<and> extract_google_drive_id ''https://drive.google.com/file/d/1abcfile/d/x/view''
       = Inr (Some ''1abc'')"
  by (simp add: extract_google_drive_id_def str_in_def sublist_code str_split_def
      split_parts.simps index_def and_then_def)

theorem extract_google_drive_id_cases_witness:
  "extract_google_drive_id ''https://drive.google.com/file/d/1AbC_x-9/view?usp=sharing''
     = Inr (Some ''1AbC_x-9'')
   \<and> extract_google_drive_id ''https://drive.google.com/uc?export=download&id=1AbC&confirm=t''
     = Inr (Some ''1AbC'')
   \<and> extract_google_drive_id ''https://drive.google.com/drive/folders/xyz'' = Inr None
   \<and> download_from_url offline_env ''https://drive.google.com/drive/folders/xyz'' idle_world
     = (Inr None, idle_world\<lparr>logged := [ERROR ''Invalid Google Drive URL'']\<rparr>)"
proof -
  let ?u1 = "''https://drive.google.com/file/d/1AbC_x-9/view?usp=sharing''"
  let ?u2 = "''https://drive.google.com/uc?export=download&id=1AbC&confirm=t''"
  let ?u3 = "''https://drive.google.com/drive/folders/xyz''"
  have h1: "?u1 = ''https://drive.google.com/'' @ ''file/d/'' @ ''1AbC_x-9'' @ ''/'' @ ''view?usp=sharing''
        \<and> \<not> str_in ''file/d/'' (''https://drive.google.com/'' @ ''file/d'')
        \<and> CHR ''/'' \<notin> set ''1AbC_x-9''
        \<and> \<not> (suffix ''file'' ''1AbC_x-9'' \<and> prefix ''d/'' ''view?usp=sharing'')"
    by (simp add: str_in_def sublist_code suffix_def Cons_eq_append_conv)
  have h2: "?u2 = ''https://drive.google.com/uc?export=download&'' @ ''id='' @ ''1AbC'' @ ''&confirm=t''
        \<and> \<not> str_in ''file/d/'' ?u2
        \<and> \<not> str_in ''id='' (''https://drive.google.com/uc?export=download&'' @ ''id'')
        \<and> CHR ''&'' \<notin> set ''1AbC'' \<and> \<not> str_in ''id='' ''1AbC''
        \<and> (''&confirm=t'' = [] \<or> hd ''&confirm=t'' = CHR ''&'')"
    by (simp add: str_in_def sublist_code)
  have h3: "\<not> str_in ''file/d/'' ?u3 \<and> \<not> str_in ''id='' ?u3"
    by (simp add: str_in_def sublist_code)
  have h4: "str_in ''drive.google.com'' ?u3
                \<and> cwd idle_world \<noteq> zips_path offline_env
                \<and> dir_elsewhere offline_env (cwd idle_world)
                \<and> lookup (files idle_world) [''zips''] = Some (Dir [])"
    by (simp add: str_in_def sublist_code idle_world_def offline_env_def)
  from extract_google_drive_id_cases [of ?u1] h1
  have r1: "extract_google_drive_id ?u1 = Inr (Some ''1AbC_x-9'')" by blast
  from extract_google_drive_id_cases [of ?u2] h2
  have r2: "extract_google_drive_id ?u2 = Inr (Some ''1AbC'')" by blast
  from extract_google_drive_id_cases [of ?u3] h3
  have r3: "extract_google_drive_id ?u3 = Inr None"
    and caller: "\<forall>env w z. str_in ''drive.google.com'' ?u3
                \<and> cwd w \<noteq> zips_path env \<and> dir_elsewhere env (cwd w)
                \<and> lookup (files w) [''zips''] = Some (Dir z)
                \<longrightarrow> download_from_url env ?u3 w
                      = (Inr None, logging (ERROR ''Invalid Google Drive URL'') w)"
    by blast+
  from caller h4 have "download_from_url offline_env ?u3 idle_world
       = (Inr None, logging (ERROR ''Invalid Google Drive URL'') idle_world)"
    by blast
  then have r4: "download_from_url offline_env ?u3 idle_world
     = (Inr None, idle_world\<lparr>logged := [ERROR ''Invalid Google Drive URL'']\<rparr>)"
    by (simp add: logging_def idle_world_def)
  from r1 r2 r3 r4 show ?thesis by blast
qed

section \<open>The normalizer as a whole\<close>


























section \<open>C9: the target directory after a successful run\<close>




end
